theory Spec2Isabelle
  imports Complex_Main "HOL-Library.Signed_Division"
begin

section \<open>Data model\<close>

text \<open>
  The Go sources declare indices, terms and sizes as \<^verbatim>\<open>int\<close> and client and command
  identifiers as \<^verbatim>\<open>int64\<close>. They are only compared, incremented, decremented and
  subtracted in the ranges of a log's indices, so they are modelled as unbounded
  \<^typ>\<open>int\<close>. A panic of the Go runtime or of the code itself is a value of
  \<open>error\<close>; a function that can panic returns \<open>error + 'a\<close>, with \<open>Inl\<close> the panic.
\<close>

datatype error =
    Panic string
  | IndexOutOfRange
  | DivideByZero
  | NilDereference

definition andThen :: "error + 'a \<Rightarrow> ('a \<Rightarrow> error + 'b) \<Rightarrow> error + 'b" where
  "andThen r f = (case r of Inl e \<Rightarrow> Inl e | Inr x \<Rightarrow> f x)"

text \<open>
  \<^verbatim>\<open>Entry\<close>: its \<^verbatim>\<open>Command\<close> is an \<^verbatim>\<open>interface{}\<close>, \<open>None\<close> is Go's \<^verbatim>\<open>nil\<close>
  (the command of the dummy entry and of a zero-valued entry).
\<close>

record 'c Entry =
  Index :: int
  Term :: int
  Command :: "'c option"

subsection \<open>The log (\<^verbatim>\<open>raftLog\<close>)\<close>

text \<open>
  \<^verbatim>\<open>type raftLog struct { logs []Entry }\<close>: the struct has one field, so the log is the
  list itself. Position 0 holds the dummy entry. Go slices carry a capacity: an upper
  slice bound between \<^verbatim>\<open>len\<close> and \<^verbatim>\<open>cap\<close> is legal in Go. The model has no capacity
  and treats every bound beyond the length as out of range; no theorem below
  evaluates a slice at such a bound.
\<close>

type_synonym 'c raftLog = "'c Entry list"

definition dummyIndex :: "'c raftLog \<Rightarrow> error + int" where
  "dummyIndex l = (case l of [] \<Rightarrow> Inl IndexOutOfRange | e # _ \<Rightarrow> Inr (Index e))"

definition convertIndex :: "'c raftLog \<Rightarrow> int \<Rightarrow> error + int" where
  "convertIndex l index =
     andThen (dummyIndex l) (\<lambda>d.
       if index < d then Inl (Panic ''current index is smaller than dummy Index'')
       else Inr (index - d))"

definition getEntry :: "'c raftLog \<Rightarrow> int \<Rightarrow> error + 'c Entry" where
  "getEntry l index =
     andThen (convertIndex l index) (\<lambda>k.
       if 0 \<le> k \<and> k < int (length l) then Inr (l ! nat k) else Inl IndexOutOfRange)"

definition lastIndex :: "'c raftLog \<Rightarrow> error + int" where
  "lastIndex l = (if l = [] then Inl IndexOutOfRange else Inr (Index (last l)))"

definition len :: "'c raftLog \<Rightarrow> int" where
  "len l = int (length l)"

definition append_raftLog :: "'c raftLog \<Rightarrow> 'c Entry list \<Rightarrow> error + 'c raftLog" where
  "append_raftLog l ents =
     (if ents = [] then andThen (lastIndex l) (\<lambda>_. Inr l)
      else andThen (lastIndex (l @ ents)) (\<lambda>_. Inr (l @ ents)))"

definition sliceTo :: "'c raftLog \<Rightarrow> int \<Rightarrow> error + 'c Entry list" where
  "sliceTo l high =
     andThen (convertIndex l high) (\<lambda>k.
       if 0 \<le> k \<and> k \<le> int (length l) then Inr (take (nat k) l) else Inl IndexOutOfRange)"

definition sliceFrom :: "'c raftLog \<Rightarrow> int \<Rightarrow> error + 'c Entry list" where
  "sliceFrom l low =
     andThen (convertIndex l low) (\<lambda>k.
       if 0 \<le> k \<and> k \<le> int (length l) then Inr (drop (nat k) l) else Inl IndexOutOfRange)"

definition slice :: "'c raftLog \<Rightarrow> int \<Rightarrow> int \<Rightarrow> error + 'c Entry list" where
  "slice l low high =
     andThen (convertIndex l low) (\<lambda>a.
     andThen (convertIndex l high) (\<lambda>b.
       if 0 \<le> a \<and> a \<le> b \<and> b \<le> int (length l)
       then Inr (take (nat b - nat a) (drop (nat a) l))
       else Inl IndexOutOfRange))"

definition trunc :: "'c raftLog \<Rightarrow> int \<Rightarrow> error + 'c raftLog" where
  "trunc l high =
     andThen (sliceTo l high) (\<lambda>l'.
     andThen (lastIndex l') (\<lambda>_. Inr l'))"

definition matchLog :: "'c raftLog \<Rightarrow> int \<Rightarrow> int \<Rightarrow> error + bool" where
  "matchLog l requestPrevTerm requestPrevIndex =
     andThen (lastIndex l) (\<lambda>li.
       if requestPrevIndex > li then Inr False
       else andThen (getEntry l requestPrevIndex) (\<lambda>targetLog.
         Inr (requestPrevIndex = Index targetLog \<and> requestPrevTerm = Term targetLog)))"


definition zeroEntry :: "'c Entry" where
  "zeroEntry = \<lparr>Index = 0, Term = 0, Command = None\<rparr>"

text \<open>
  Go's builtin \<^verbatim>\<open>copy(dst, src)\<close> overwrites the first \<open>min (len dst) (len src)\<close>
  elements of \<open>dst\<close>.
\<close>

definition go_copy :: "'a list \<Rightarrow> 'a list \<Rightarrow> 'a list" where
  "go_copy dst src =
     take (min (length dst) (length src)) src @ drop (min (length dst) (length src)) dst"

section \<open>The consensus node\<close>

datatype State = StateFollower | StateCandidate | StateLeader

datatype job = HeartBeat | Append

text \<open>
  Condition variables and goroutines are not part of the node's data. What the code
  does to them is recorded, in order, in the field \<open>trace\<close> of the node:
  \<^verbatim>\<open>rf.applyCond.Signal()\<close>, \<^verbatim>\<open>rf.tryAppendCond[peer].Signal()\<close> and
  \<^verbatim>\<open>go rf.appendOneRound(peer)\<close>.
\<close>

datatype event = Signal_applyCond | Signal_tryAppendCond nat | Go_appendOneRound nat

record 'c AppendEntriesArgs =
  args_Term :: int
  LeaderId :: nat
  PrevLogIndex :: int
  PrevLogTerm :: int
  Entries :: "'c Entry list"
  LeaderCommit :: int

record AppendEntriesReply =
  reply_Term :: int
  Success :: bool
  ConflictIndex :: int

text \<open>
  \<^verbatim>\<open>Raft\<close>: \<open>peers\<close> is \<^verbatim>\<open>len(rf.peers)\<close>; \<open>persisted\<close> is the blob held by the
  persister; the lock, the timers and the kill flag are left out.
\<close>

record 'c Raft =
  peers :: nat
  me :: nat
  state :: State
  currentTerm :: int
  votedFor :: int
  raftLog :: "'c raftLog"
  commitIndex :: int
  lastApplied :: int
  nextIndex :: "int list"
  matchIndex :: "int list"
  persisted :: "int \<times> int \<times> 'c Entry list"
  trace :: "event list"

record 'c ApplyMsg =
  CommandValid :: bool
  MsgCommand :: "'c option"
  CommandTerm :: int
  CommandIndex :: int

text \<open>
  Modelled from the spec: \<^verbatim>\<open>persist\<close> is called by the sources but defined outside them.
  The spec: the node persists \<open>(currentTerm, votedFor, log)\<close> as one opaque blob.
\<close>

definition persist :: "'c Raft \<Rightarrow> 'c Raft" where
  "persist rf = rf\<lparr>persisted := (currentTerm rf, votedFor rf, raftLog rf)\<rparr>"

text \<open>
  Modelled from the spec: \<^verbatim>\<open>ChangeState\<close> is called by the sources but defined outside
  them. The spec, for the transition to Follower used here: role := Follower (the
  timers it resets are not modelled).
\<close>

definition ChangeState :: "'c Raft \<Rightarrow> State \<Rightarrow> 'c Raft" where
  "ChangeState rf s = rf\<lparr>state := s\<rparr>"

text \<open>
  Modelled from the spec: \<^verbatim>\<open>GetState\<close> is called by the key-value server but defined
  outside the sources. The spec: \<open>getState() \<rightarrow> (term, isLeader)\<close>.
\<close>

definition GetState :: "'c Raft \<Rightarrow> int \<times> bool" where
  "GetState rf = (currentTerm rf, state rf = StateLeader)"

text \<open>
  \<^verbatim>\<open>rf.tryAppendCond[peer].Signal()\<close>: the slice has \<^verbatim>\<open>len(peers)\<close> elements and
  \<^verbatim>\<open>Make\<close> leaves the element of the node itself \<^verbatim>\<open>nil\<close>.
\<close>

definition signalTryAppend :: "'c Raft \<Rightarrow> nat \<Rightarrow> error + 'c Raft" where
  "signalTryAppend rf peer =
     (if peers rf \<le> peer then Inl IndexOutOfRange
      else if peer = me rf then Inl NilDereference
      else Inr (rf\<lparr>trace := trace rf @ [Signal_tryAppendCond peer]\<rparr>))"

definition BroadcastAppend :: "'c Raft \<Rightarrow> job \<Rightarrow> 'c Raft" where
  "BroadcastAppend rf j =
     rf\<lparr>trace := trace rf @
        map (\<lambda>peer. if j = HeartBeat then Go_appendOneRound peer else Signal_tryAppendCond peer)
            (filter (\<lambda>peer. peer \<noteq> me rf) [0..<peers rf])\<rparr>"

subsection \<open>\<^verbatim>\<open>appendOneRound\<close>: building the request\<close>

text \<open>
  The part of \<^verbatim>\<open>appendOneRound\<close> under the read lock: \<open>None\<close> when the node is not
  Leader, else the arguments that are sent. \<^verbatim>\<open>make([]Entry, n)\<close> panics for a
  negative \<open>n\<close>. The reply is handled by \<^verbatim>\<open>processAppendEntriesReply\<close> below.
\<close>

definition appendOneRound :: "'c Raft \<Rightarrow> nat \<Rightarrow> error + 'c AppendEntriesArgs option" where
  "appendOneRound rf peer =
     (if state rf \<noteq> StateLeader then Inr None
      else if length (nextIndex rf) \<le> peer then Inl IndexOutOfRange
      else
        andThen (dummyIndex (raftLog rf)) (\<lambda>d.
        if nextIndex rf ! peer - 1 < d then Inl (Panic ''weird'')
        else
          andThen (lastIndex (raftLog rf)) (\<lambda>li.
          let prevLogIndex = (if nextIndex rf ! peer - 1 > li then li + 1
                              else nextIndex rf ! peer - 1) in
          andThen (getEntry (raftLog rf) prevLogIndex) (\<lambda>prev.
          if li - prevLogIndex < 0 then Inl (Panic ''makeslice: len out of range'')
          else
            andThen (sliceFrom (raftLog rf) (prevLogIndex + 1)) (\<lambda>src.
            Inr (Some \<lparr>args_Term = currentTerm rf, LeaderId = me rf,
                       PrevLogIndex = prevLogIndex, PrevLogTerm = Term prev,
                       Entries = go_copy (replicate (nat (li - prevLogIndex)) zeroEntry) src,
                       LeaderCommit = commitIndex rf\<rparr>))))))"

subsection \<open>\<^verbatim>\<open>advanceCommitIndexForLeader\<close>\<close>

text \<open>
  The inner loop \<^verbatim>\<open>for j := range rf.peers\<close>, run over the peer numbers that are left;
  \<^verbatim>\<open>rf.matchIndex[j]\<close> is read only for \<open>j \<noteq> me\<close>.
\<close>

fun countMatch :: "'c Raft \<Rightarrow> int \<Rightarrow> nat list \<Rightarrow> int \<Rightarrow> error + int" where
  "countMatch rf i [] num = Inr num"
| "countMatch rf i (j # js) num =
     (if j \<noteq> me rf then
        (if length (matchIndex rf) \<le> j then Inl IndexOutOfRange
         else if matchIndex rf ! j \<ge> i then countMatch rf i js (num + 1)
         else countMatch rf i js num)
      else countMatch rf i js num)"

text \<open>
  The outer loop \<^verbatim>\<open>for i := lastIndex(); i > rf.commitIndex; i--\<close>, from the value \<open>i\<close>
  on. Go's \<^verbatim>\<open>&&\<close> reads the entry only when the count is a majority.
\<close>

function advanceLoop :: "'c Raft \<Rightarrow> int \<Rightarrow> error + 'c Raft" where
  "advanceLoop rf i =
     (if i > commitIndex rf then
        (case countMatch rf i [0..<peers rf] 0 of
           Inl e \<Rightarrow> Inl e
         | Inr num \<Rightarrow>
             if num + 1 > int (peers rf) div 2 then
               (case getEntry (raftLog rf) i of
                  Inl e \<Rightarrow> Inl e
                | Inr ent \<Rightarrow>
                    if Term ent = currentTerm rf
                    then Inr (rf\<lparr>commitIndex := i, trace := trace rf @ [Signal_applyCond]\<rparr>)
                    else advanceLoop rf (i - 1))
             else advanceLoop rf (i - 1))
      else Inr rf)"
  by pat_completeness auto
termination
  by (relation "measure (\<lambda>(rf, i). nat (i - commitIndex rf))") auto

declare advanceLoop.simps [simp del]

definition advanceCommitIndexForLeader :: "'c Raft \<Rightarrow> error + 'c Raft" where
  "advanceCommitIndexForLeader rf =
     (if state rf \<noteq> StateLeader then Inr rf
      else andThen (lastIndex (raftLog rf)) (\<lambda>li. advanceLoop rf li))"

subsection \<open>\<^verbatim>\<open>processAppendEntriesReply\<close>\<close>

definition processAppendEntriesReply ::
  "'c Raft \<Rightarrow> nat \<Rightarrow> 'c AppendEntriesArgs \<Rightarrow> AppendEntriesReply \<Rightarrow> error + 'c Raft" where
  "processAppendEntriesReply rf peer args reply =
     (if reply_Term reply > currentTerm rf then
        Inr (persist (ChangeState (rf\<lparr>currentTerm := reply_Term reply, votedFor := -1\<rparr>)
                                  StateFollower))
      else if reply_Term reply = currentTerm rf \<and> state rf = StateLeader \<and>
              args_Term args = currentTerm rf then
        (if length (nextIndex rf) \<le> peer then Inl IndexOutOfRange
         else if PrevLogIndex args = nextIndex rf ! peer - 1 then
           andThen
             (if Success reply then
                (let newNext = int (length (Entries args)) + PrevLogIndex args + 1;
                     newMatch = int (length (Entries args)) + PrevLogIndex args;
                     rf1 = (if newNext > nextIndex rf ! peer
                            then rf\<lparr>nextIndex := (nextIndex rf)[peer := newNext]\<rparr> else rf)
                 in if length (matchIndex rf1) \<le> peer then Inl IndexOutOfRange
                    else advanceCommitIndexForLeader
                           (if newMatch > matchIndex rf1 ! peer
                            then rf1\<lparr>matchIndex := (matchIndex rf1)[peer := newMatch]\<rparr>
                            else rf1))
              else Inr (rf\<lparr>nextIndex := (nextIndex rf)[peer := ConflictIndex reply]\<rparr>))
             (\<lambda>rf2.
                andThen (lastIndex (raftLog rf2)) (\<lambda>li.
                  if nextIndex rf2 ! peer \<noteq> li + 1 then signalTryAppend rf2 peer
                  else Inr rf2))
         else Inr rf)
      else Inr rf)"

subsection \<open>\<^verbatim>\<open>HandleAppendEntries\<close>\<close>

text \<open>
  The fast-backup loop
  \<^verbatim>\<open>for index > dummyIndex+1 && rf.raftLog.getEntry(index).Term == abandondRound { index-- }\<close>.
\<close>

function walkBack :: "'c raftLog \<Rightarrow> int \<Rightarrow> int \<Rightarrow> int \<Rightarrow> error + int" where
  "walkBack l dummy abandondRound index =
     (if index > dummy + 1 then
        (case getEntry l index of
           Inl e \<Rightarrow> Inl e
         | Inr ent \<Rightarrow>
             if Term ent = abandondRound then walkBack l dummy abandondRound (index - 1)
             else Inr index)
      else Inr index)"
  by pat_completeness auto
termination
  by (relation "measure (\<lambda>(l, dummy, abandondRound, index). nat (index - dummy))") auto

declare walkBack.simps [simp del]

text \<open>
  The body of the conflict scan once an entry is out of the log or differs in term:
  \<^verbatim>\<open>rf.raftLog.trunc(entry.Index); rf.raftLog.append(args.Entries[index:]...); break\<close>.
\<close>

definition truncAppend :: "'c raftLog \<Rightarrow> 'c Entry \<Rightarrow> 'c Entry list \<Rightarrow> error + 'c raftLog" where
  "truncAppend l entry rest =
     andThen (trunc l (Index entry)) (\<lambda>l1. append_raftLog l1 (entry # rest))"

text \<open>The conflict scan \<^verbatim>\<open>for index, entry := range args.Entries\<close>, over the entries left.\<close>

fun scanEntries :: "'c raftLog \<Rightarrow> 'c Entry list \<Rightarrow> error + 'c raftLog" where
  "scanEntries l [] = Inr l"
| "scanEntries l (entry # rest) =
     (case convertIndex l (Index entry) of
        Inl e \<Rightarrow> Inl e
      | Inr k \<Rightarrow>
          if k \<ge> len l then truncAppend l entry rest
          else (case getEntry l (Index entry) of
                  Inl e \<Rightarrow> Inl e
                | Inr ent \<Rightarrow>
                    if Term ent \<noteq> Term entry then truncAppend l entry rest
                    else scanEntries l rest))"

text \<open>
  The handler takes the reply struct the caller allocated and returns the node and
  the reply. The deferred \<^verbatim>\<open>DPrintf\<close> evaluates \<^verbatim>\<open>dummyIndex()\<close> and \<^verbatim>\<open>lastIndex()\<close>
  when it is deferred, at the start. The deferred \<^verbatim>\<open>persist\<close> runs on every return.
  After \<^verbatim>\<open>reply.Term, reply.Success = 0, false\<close> the branch for a request behind the
  dummy entry ends in \<^verbatim>\<open>panic("weird2")\<close>.
\<close>

definition HandleAppendEntries ::
  "'c Raft \<Rightarrow> 'c AppendEntriesArgs \<Rightarrow> AppendEntriesReply
     \<Rightarrow> error + ('c Raft \<times> AppendEntriesReply)" where
  "HandleAppendEntries rf args reply =
     andThen (dummyIndex (raftLog rf)) (\<lambda>_.
     andThen (lastIndex (raftLog rf)) (\<lambda>_.
     if args_Term args < currentTerm rf then
       Inr (persist rf, reply\<lparr>reply_Term := currentTerm rf, Success := False\<rparr>)
     else
       (let rf1 = (if args_Term args > currentTerm rf
                   then rf\<lparr>currentTerm := args_Term args, votedFor := -1\<rparr> else rf);
            rf2 = ChangeState rf1 StateFollower
        in
        andThen (dummyIndex (raftLog rf2)) (\<lambda>d.
        if PrevLogIndex args < d then Inl (Panic ''weird2'')
        else
          andThen (matchLog (raftLog rf2) (PrevLogTerm args) (PrevLogIndex args)) (\<lambda>m.
          if \<not> m then
            andThen (lastIndex (raftLog rf2)) (\<lambda>li.
            if PrevLogIndex args > li then
              Inr (persist rf2, reply\<lparr>reply_Term := currentTerm rf2, Success := False,
                                      ConflictIndex := li + 1\<rparr>)
            else
              andThen (dummyIndex (raftLog rf2)) (\<lambda>dummy.
              andThen (getEntry (raftLog rf2) (PrevLogIndex args)) (\<lambda>ent.
              andThen (walkBack (raftLog rf2) dummy (Term ent) (PrevLogIndex args)) (\<lambda>index.
              Inr (persist rf2, reply\<lparr>reply_Term := currentTerm rf2, Success := False,
                                      ConflictIndex := index\<rparr>)))))
          else
            andThen (scanEntries (raftLog rf2) (Entries args)) (\<lambda>l'.
            andThen
              (if LeaderCommit args > commitIndex rf2 then
                 andThen (lastIndex l') (\<lambda>li.
                 Inr (rf2\<lparr>raftLog := l', commitIndex := min (LeaderCommit args) li,
                          trace := trace rf2 @ [Signal_applyCond]\<rparr>))
               else Inr (rf2\<lparr>raftLog := l'\<rparr>))
              (\<lambda>rf3.
              Inr (persist rf3,
                   reply\<lparr>reply_Term := currentTerm rf3, Success := True\<rparr>))))))))"

subsection \<open>\<^verbatim>\<open>Start\<close>\<close>

definition Start :: "'c Raft \<Rightarrow> 'c \<Rightarrow> error + ('c Raft \<times> int \<times> int \<times> bool)" where
  "Start rf command =
     (if state rf \<noteq> StateLeader then Inr (rf, -1, -1, False)
      else
        andThen (lastIndex (raftLog rf)) (\<lambda>li.
        let newLog = \<lparr>Index = li + 1, Term = currentTerm rf, Command = Some command\<rparr> in
        andThen (append_raftLog (raftLog rf) [newLog]) (\<lambda>l'.
        Inr (BroadcastAppend (persist (rf\<lparr>raftLog := l'\<rparr>)) Append,
             Index newLog, Term newLog, True))))"

subsection \<open>\<^verbatim>\<open>applier\<close>\<close>

text \<open>
  One iteration of the applier has three parts. Under the lock it waits while
  \<open>lastApplied \<ge> commitIndex\<close> (\<open>None\<close>: the iteration blocks) and then copies the
  entries out; without the lock it sends one message per entry; under the lock
  again it sets \<open>lastApplied\<close>, from the \<open>commitIndex\<close> it read in the first part.
\<close>

definition applier_collect :: "'c Raft \<Rightarrow> error + (int \<times> 'c Entry list) option" where
  "applier_collect rf =
     (if lastApplied rf \<ge> commitIndex rf then Inr None
      else
        andThen (slice (raftLog rf) (lastApplied rf + 1) (commitIndex rf + 1)) (\<lambda>src.
        Inr (Some (commitIndex rf,
                   go_copy (replicate (nat (commitIndex rf - lastApplied rf)) zeroEntry) src))))"

definition applier_emit :: "'c Entry list \<Rightarrow> 'c ApplyMsg list" where
  "applier_emit entries =
     map (\<lambda>entry. \<lparr>CommandValid = True, MsgCommand = Command entry,
                    CommandTerm = Term entry, CommandIndex = Index entry\<rparr>) entries"

definition applier_finish :: "'c Raft \<Rightarrow> int \<Rightarrow> 'c Raft" where
  "applier_finish rf commitIndex' = rf\<lparr>lastApplied := max (lastApplied rf) commitIndex'\<rparr>"

text \<open>An iteration that no other activity interleaves: the messages sent and the node after.\<close>

definition applier_body :: "'c Raft \<Rightarrow> error + ('c ApplyMsg list \<times> 'c Raft) option" where
  "applier_body rf =
     andThen (applier_collect rf) (\<lambda>r.
       case r of
         None \<Rightarrow> Inr None
       | Some (commitIndex', entries) \<Rightarrow>
           Inr (Some (applier_emit entries, applier_finish rf commitIndex')))"

section \<open>The key-value server\<close>

definition OK :: string where "OK = ''OK''"
definition ErrNoKey :: string where "ErrNoKey = ''ErrNoKey''"
definition ErrWrongLeader :: string where "ErrWrongLeader = ''ErrWrongLeader''"
definition ErrTimeout :: string where "ErrTimeout = '' ErrTimeout''"

definition Putt :: string where "Putt = ''Put''"
definition Appendd :: string where "Appendd = ''Append''"
definition Gett :: string where "Gett = ''Get''"

record Op =
  OpTask :: string
  Key :: string
  Value :: string
  ClientId :: int
  CommandId :: int
  Seq :: int

record CommandArgs =
  args_Key :: string
  args_Value :: string
  args_Op :: string
  args_ClientId :: int
  args_CommandId :: int

record CommandReply =
  Err :: string
  reply_Value :: string

text \<open>
  \<^verbatim>\<open>KVServer\<close>: \<open>storage\<close> is the map held by \<^verbatim>\<open>MemoryKV\<close>, \<open>waitChannel\<close> the set of
  keys of the map of one-shot channels; the lock, the kill flag, the raft node and
  the persister are left out (the last two are parameters where they are read).
\<close>

record KVServer =
  maxraftstate :: int
  storage :: "string \<rightharpoonup> string"
  latestTime :: "int \<rightharpoonup> int"
  waitChannel :: "int set"
  kv_lastApplied :: int

text \<open>
  Modelled from the spec: \<^verbatim>\<open>MemoryKV\<close> (\<^verbatim>\<open>Put\<close>, \<^verbatim>\<open>Append\<close>, \<^verbatim>\<open>Get\<close>) is used by the
  server but defined outside the sources. The spec: an in-memory map
  \<open>storage: map<string,string>\<close> that serves reads, with results \<open>OK\<close> and \<open>ErrNoKey\<close>.
\<close>

definition kvPut :: "(string \<rightharpoonup> string) \<Rightarrow> string \<Rightarrow> string \<Rightarrow> (string \<rightharpoonup> string)" where
  "kvPut m k v = m(k \<mapsto> v)"

definition kvAppend :: "(string \<rightharpoonup> string) \<Rightarrow> string \<Rightarrow> string \<Rightarrow> (string \<rightharpoonup> string)" where
  "kvAppend m k v = m(k \<mapsto> (case m k of None \<Rightarrow> v | Some old \<Rightarrow> old @ v))"

definition kvGet :: "(string \<rightharpoonup> string) \<Rightarrow> string \<Rightarrow> string \<times> string" where
  "kvGet m k = (case m k of None \<Rightarrow> ([], ErrNoKey) | Some v \<Rightarrow> (v, OK))"

definition dupCommand :: "KVServer \<Rightarrow> int \<Rightarrow> int \<Rightarrow> bool" where
  "dupCommand kv commandId clientId =
     (case latestTime kv clientId of None \<Rightarrow> False | Some latestId \<Rightarrow> commandId \<le> latestId)"

text \<open>
  \<^verbatim>\<open>needSnapShot\<close>:
  \<^verbatim>\<open>kv.maxraftstate != -1 && float32(kv.persister.RaftStateSize()/kv.maxraftstate) > 0.8\<close>.
  The persister is outside the sources, so its \<^verbatim>\<open>RaftStateSize()\<close> is the parameter
  \<open>raftStateSize\<close>. The quotient is Go's integer division of two \<^verbatim>\<open>int\<close>s, which
  truncates towards zero (\<open>sdiv\<close>) and panics on a zero divisor; only the integer
  quotient is converted to \<^verbatim>\<open>float32\<close>. That conversion is monotone and exact at 0 and
  at 1, and the constant 0.8 lies strictly between them, so comparing the quotient as
  a real number with \<open>8/10\<close> gives the same truth value as the \<^verbatim>\<open>float32\<close> comparison.
\<close>

definition needSnapShot :: "KVServer \<Rightarrow> int \<Rightarrow> error + bool" where
  "needSnapShot kv raftStateSize =
     (if maxraftstate kv \<noteq> -1 then
        (if maxraftstate kv = 0 then Inl DivideByZero
         else Inr (real_of_int (raftStateSize sdiv maxraftstate kv) > 8 / 10))
      else Inr False)"

text \<open>
  What the server does besides changing its own fields: the send \<^verbatim>\<open>c <- true\<close> on the
  channel registered under a \<open>Seq\<close>, and \<^verbatim>\<open>takeSnapShot(index)\<close> (which encodes the state
  and calls the node's \<^verbatim>\<open>Snapshot\<close>, an empty function).
\<close>

datatype kv_event = Notify int | TakeSnapShot int

text \<open>
  The inner branch of \<^verbatim>\<open>listenApplyCh\<close> that changes the store:
  \<^verbatim>\<open>if curOp.OpTask != Gett && !kv.dupCommand(curOp.CommandId, curOp.ClientId)\<close>.
\<close>

definition applyOp :: "KVServer \<Rightarrow> Op \<Rightarrow> KVServer" where
  "applyOp kv curOp =
     (if OpTask curOp \<noteq> Gett \<and> \<not> dupCommand kv (CommandId curOp) (ClientId curOp) then
        (let kv1 = (if OpTask curOp = Appendd
                    then kv\<lparr>storage := kvAppend (storage kv) (Key curOp) (Value curOp)\<rparr>
                    else if OpTask curOp = Putt
                    then kv\<lparr>storage := kvPut (storage kv) (Key curOp) (Value curOp)\<rparr>
                    else kv)
         in kv1\<lparr>latestTime := (latestTime kv1)(ClientId curOp \<mapsto> CommandId curOp)\<rparr>)
      else kv)"

text \<open>
  The body of \<^verbatim>\<open>listenApplyCh\<close> for a message with \<^verbatim>\<open>CommandValid\<close> set. \<open>rf\<close> is the
  node when \<^verbatim>\<open>GetState\<close> is called and \<open>raftStateSize\<close> the persister's answer. The
  type assertion \<^verbatim>\<open>applyMessage.Command.(Op)\<close> panics on \<^verbatim>\<open>nil\<close>. The branch for a
  snapshot message is not modelled.
\<close>

definition listenApplyCh_command ::
  "Op Raft \<Rightarrow> int \<Rightarrow> KVServer \<Rightarrow> Op ApplyMsg \<Rightarrow> error + (KVServer \<times> kv_event list)" where
  "listenApplyCh_command rf raftStateSize kv applyMessage =
     (case MsgCommand applyMessage of
        None \<Rightarrow> Inl (Panic ''interface conversion'')
      | Some curOp \<Rightarrow>
          if CommandIndex applyMessage > kv_lastApplied kv then
            (let kv1 = applyOp (kv\<lparr>kv_lastApplied := CommandIndex applyMessage\<rparr>) curOp;
                 notify = (if snd (GetState rf) \<and> CommandTerm applyMessage = fst (GetState rf)
                              \<and> Seq curOp \<in> waitChannel kv1
                           then [Notify (Seq curOp)] else [])
             in andThen (needSnapShot kv1 raftStateSize) (\<lambda>b.
                Inr (kv1, notify @ (if b then [TakeSnapShot (CommandIndex applyMessage)]
                                    else []))))
          else Inr (kv, []))"

text \<open>The server's loop over a sequence of command messages, each with its surroundings.\<close>

fun listenApplyCh ::
  "KVServer \<Rightarrow> (Op Raft \<times> int \<times> Op ApplyMsg) list \<Rightarrow> error + KVServer" where
  "listenApplyCh kv [] = Inr kv"
| "listenApplyCh kv ((rf, raftStateSize, applyMessage) # rest) =
     (case listenApplyCh_command rf raftStateSize kv applyMessage of
        Inl e \<Rightarrow> Inl e
      | Inr (kv', _) \<Rightarrow> listenApplyCh kv' rest)"

text \<open>
  \<^verbatim>\<open>Command\<close>. \<open>seq\<close> is the value of \<^verbatim>\<open>nrand()\<close>. The \<^verbatim>\<open>select\<close> of a leader is decided
  outside: either the timer fires, or the channel delivers and the reply is read from
  the server as it is at that time.
\<close>

datatype waited = TimerFired | Applied KVServer

definition Command_kv ::
  "Op Raft \<Rightarrow> KVServer \<Rightarrow> CommandArgs \<Rightarrow> CommandReply \<Rightarrow> int \<Rightarrow> waited
     \<Rightarrow> error + (Op Raft \<times> KVServer \<times> CommandReply)" where
  "Command_kv rf kv args reply seq w =
     (let op = \<lparr>OpTask = args_Op args, Key = args_Key args, Value = args_Value args,
                ClientId = args_ClientId args, CommandId = args_CommandId args, Seq = seq\<rparr>;
          kv1 = kv\<lparr>waitChannel := insert seq (waitChannel kv)\<rparr>
      in andThen (Start rf op) (\<lambda>(rf', _, _, isLeader).
         if \<not> isLeader then
           Inr (rf', kv1\<lparr>waitChannel := waitChannel kv1 - {seq}\<rparr>,
                reply\<lparr>Err := ErrWrongLeader\<rparr>)
         else (case w of
                 TimerFired \<Rightarrow>
                   Inr (rf', kv1\<lparr>waitChannel := waitChannel kv1 - {seq}\<rparr>,
                        reply\<lparr>Err := ErrTimeout\<rparr>)
               | Applied kvNow \<Rightarrow>
                   Inr (rf', kvNow\<lparr>waitChannel := waitChannel kvNow - {seq}\<rparr>,
                        reply\<lparr>reply_Value := fst (kvGet (storage kvNow) (args_Key args)),
                              Err := snd (kvGet (storage kvNow) (args_Key args))\<rparr>))))"

section \<open>Notions used to state the properties\<close>

text \<open>
  A log as the node builds it: not empty, and the entry at position \<open>k\<close> carries the
  index of the dummy entry plus \<open>k\<close>.
\<close>

definition wf_log :: "'c raftLog \<Rightarrow> bool" where
  "wf_log l = (l \<noteq> [] \<and> map Index l = map (\<lambda>k. Index (hd l) + int k) [0..<length l])"

text \<open>The entry stored under an absolute index.\<close>

definition entryAt :: "'c raftLog \<Rightarrow> int \<Rightarrow> 'c Entry" where
  "entryAt l i = l ! nat (i - Index (hd l))"

text \<open>
  The spec's words for commit advancement: the number of nodes, the leader itself
  plus every peer \<open>p\<close> with \<open>matchIndex[p] \<ge> i\<close>, that hold index \<open>i\<close>; and an index
  that may be committed: above \<open>commitIndex\<close>, in the log, held by a strict majority,
  and of the current term.
\<close>

definition holders :: "'c Raft \<Rightarrow> int \<Rightarrow> nat" where
  "holders rf i =
     Suc (length (filter (\<lambda>p. p \<noteq> me rf \<and> matchIndex rf ! p \<ge> i) [0..<peers rf]))"

definition committable :: "'c Raft \<Rightarrow> int \<Rightarrow> bool" where
  "committable rf i =
     (commitIndex rf < i \<and> i \<le> Index (last (raftLog rf)) \<and>
      peers rf < 2 * holders rf i \<and>
      Term (entryAt (raftLog rf) i) = currentTerm rf)"

text \<open>
  The spec's words for the conflict scan of \<^verbatim>\<open>HandleAppendEntries\<close>: an entry of the
  request is already present when its index is not beyond \<open>lastIndex\<close> and the entry
  stored at that index has its term. At the first entry that is not, the log is
  truncated at that index and the entries from this one on are appended; when every
  entry is present the log stays as it is.
\<close>

definition present :: "'c raftLog \<Rightarrow> 'c Entry \<Rightarrow> bool" where
  "present l e = (Index e \<le> Index (last l) \<and> Term (entryAt l (Index e)) = Term e)"

definition afterConflictScan :: "'c raftLog \<Rightarrow> 'c Entry list \<Rightarrow> 'c raftLog" where
  "afterConflictScan l es =
     (case dropWhile (present l) es of
        [] \<Rightarrow> l
      | e # rest \<Rightarrow> take (nat (Index e - Index (hd l))) l @ e # rest)"

text \<open>The entries of a request carry the indices after \<open>PrevLogIndex\<close>, in order.\<close>

definition follows :: "int \<Rightarrow> 'c Entry list \<Rightarrow> bool" where
  "follows p es = (map Index es = map (\<lambda>k. p + 1 + int k) [0..<length es])"

text \<open>
  The staleness guard of \<^verbatim>\<open>processAppendEntriesReply\<close>, in the spec's words: the node is
  still Leader, the reply and the request are of the current term, and
  \<open>args.prevLogIndex = nextIndex[p] - 1\<close> still holds.
\<close>

definition reply_guard :: "'c Raft \<Rightarrow> nat \<Rightarrow> 'c AppendEntriesArgs \<Rightarrow> AppendEntriesReply \<Rightarrow> bool" where
  "reply_guard rf peer args reply =
     (state rf = StateLeader \<and> reply_Term reply = currentTerm rf \<and>
      args_Term args = currentTerm rf \<and> PrevLogIndex args = nextIndex rf ! peer - 1)"

text \<open>
  The spec's words for the fast-backup walk: \<open>j\<close> is the index reached from \<open>p\<close> by
  walking backward while the term at the index equals the term of the entry at \<open>p\<close>
  and the index is greater than \<open>dummyIndex + 1\<close>. Every index passed met both
  conditions, and \<open>j\<close> fails one of them.
\<close>

definition walkedBackTo :: "'c raftLog \<Rightarrow> int \<Rightarrow> int \<Rightarrow> bool" where
  "walkedBackTo l p j =
     (j \<le> p \<and>
      list_all (\<lambda>k. Term (entryAt l k) = Term (entryAt l p) \<and> Index (hd l) + 1 < k) [j + 1..p] \<and>
      \<not> (Index (hd l) + 1 < j \<and> Term (entryAt l j) = Term (entryAt l p)))"

subsection \<open>Example states\<close>

text \<open>Nodes, requests and messages at which the theorems below are instantiated.\<close>

definition leader3 :: "string Raft" where
  "leader3 =
     \<lparr>peers = 3, me = 0, state = StateLeader, currentTerm = 2, votedFor = 0,
      raftLog = [\<lparr>Index = 0, Term = 0, Command = None\<rparr>,
                 \<lparr>Index = 1, Term = 1, Command = Some ''a''\<rparr>,
                 \<lparr>Index = 2, Term = 2, Command = Some ''b''\<rparr>,
                 \<lparr>Index = 3, Term = 2, Command = Some ''c''\<rparr>],
      commitIndex = 0, lastApplied = 0, nextIndex = [4, 3, 2], matchIndex = [0, 2, 1],
      persisted = (2, 0, []), trace = []\<rparr>"

definition follower3 :: "string Raft" where
  "follower3 =
     \<lparr>peers = 3, me = 1, state = StateFollower, currentTerm = 2, votedFor = 0,
      raftLog = [\<lparr>Index = 0, Term = 0, Command = None\<rparr>,
                 \<lparr>Index = 1, Term = 1, Command = Some ''a''\<rparr>,
                 \<lparr>Index = 2, Term = 1, Command = Some ''b''\<rparr>,
                 \<lparr>Index = 3, Term = 2, Command = Some ''c''\<rparr>],
      commitIndex = 1, lastApplied = 1, nextIndex = [0, 0, 0], matchIndex = [0, 0, 0],
      persisted = (2, 0, []), trace = []\<rparr>"

definition request34 :: "string AppendEntriesArgs" where
  "request34 =
     \<lparr>args_Term = 3, LeaderId = 0, PrevLogIndex = 2, PrevLogTerm = 1,
      Entries = [\<lparr>Index = 3, Term = 3, Command = Some ''x''\<rparr>,
                 \<lparr>Index = 4, Term = 3, Command = Some ''y''\<rparr>],
      LeaderCommit = 1\<rparr>"

definition zeroReply :: AppendEntriesReply where
  "zeroReply = \<lparr>reply_Term = 0, Success = False, ConflictIndex = 0\<rparr>"

definition applying3 :: "string Raft" where
  "applying3 =
     \<lparr>peers = 3, me = 1, state = StateFollower, currentTerm = 2, votedFor = 0,
      raftLog = [\<lparr>Index = 0, Term = 0, Command = None\<rparr>,
                 \<lparr>Index = 1, Term = 1, Command = Some ''a''\<rparr>,
                 \<lparr>Index = 2, Term = 1, Command = Some ''b''\<rparr>,
                 \<lparr>Index = 3, Term = 2, Command = Some ''c''\<rparr>],
      commitIndex = 3, lastApplied = 1, nextIndex = [0, 0, 0], matchIndex = [0, 0, 0],
      persisted = (2, 0, []), trace = []\<rparr>"

definition staleRequest :: "string AppendEntriesArgs" where
  "staleRequest =
     \<lparr>args_Term = 2, LeaderId = 0, PrevLogIndex = 1, PrevLogTerm = 1,
      Entries = [\<lparr>Index = 2, Term = 2, Command = Some ''b''\<rparr>], LeaderCommit = 0\<rparr>"

definition freshRequest :: "string AppendEntriesArgs" where
  "freshRequest =
     \<lparr>args_Term = 2, LeaderId = 0, PrevLogIndex = 2, PrevLogTerm = 2,
      Entries = [\<lparr>Index = 3, Term = 2, Command = Some ''c''\<rparr>], LeaderCommit = 0\<rparr>"

definition successReply :: AppendEntriesReply where
  "successReply = \<lparr>reply_Term = 2, Success = True, ConflictIndex = 0\<rparr>"

definition freshFollower :: "string Raft" where
  "freshFollower =
     \<lparr>peers = 3, me = 1, state = StateFollower, currentTerm = 1, votedFor = -1,
      raftLog = [\<lparr>Index = 0, Term = 0, Command = None\<rparr>],
      commitIndex = 0, lastApplied = 0, nextIndex = [0, 0, 0], matchIndex = [0, 0, 0],
      persisted = (1, -1, [\<lparr>Index = 0, Term = 0, Command = None\<rparr>]), trace = []\<rparr>"

definition mismatchAtDummy :: "string AppendEntriesArgs" where
  "mismatchAtDummy =
     \<lparr>args_Term = 1, LeaderId = 0, PrevLogIndex = 0, PrevLogTerm = 1,
      Entries = [], LeaderCommit = 0\<rparr>"

definition behindDummy :: "string AppendEntriesArgs" where
  "behindDummy =
     \<lparr>args_Term = 1, LeaderId = 0, PrevLogIndex = -1, PrevLogTerm = 0,
      Entries = [], LeaderCommit = 0\<rparr>"

definition aheadLeader :: "string Raft" where
  "aheadLeader = leader3\<lparr>nextIndex := [4, 3, 6]\<rparr>"

definition compacted :: "string Raft" where
  "compacted =
     \<lparr>peers = 3, me = 1, state = StateFollower, currentTerm = 2, votedFor = 0,
      raftLog = [\<lparr>Index = 5, Term = 1, Command = None\<rparr>,
                 \<lparr>Index = 6, Term = 2, Command = Some ''f''\<rparr>],
      commitIndex = 5, lastApplied = 5, nextIndex = [0, 0, 0], matchIndex = [0, 0, 0],
      persisted = (2, 0, []), trace = []\<rparr>"

definition request3 :: "string AppendEntriesArgs" where
  "request3 =
     \<lparr>args_Term = 2, LeaderId = 0, PrevLogIndex = 3, PrevLogTerm = 1,
      Entries = [], LeaderCommit = 5\<rparr>"

definition opNode :: "Op Raft" where
  "opNode =
     \<lparr>peers = 3, me = 0, state = StateFollower, currentTerm = 1, votedFor = -1,
      raftLog = [\<lparr>Index = 0, Term = 0, Command = None\<rparr>],
      commitIndex = 0, lastApplied = 0, nextIndex = [0, 0, 0], matchIndex = [0, 0, 0],
      persisted = (1, -1, [\<lparr>Index = 0, Term = 0, Command = None\<rparr>]), trace = []\<rparr>"

definition emptyKV :: KVServer where
  "emptyKV = \<lparr>maxraftstate = -1, storage = Map.empty, latestTime = Map.empty,
              waitChannel = {}, kv_lastApplied = 0\<rparr>"

definition put7 :: Op where
  "put7 = \<lparr>OpTask = ''Put'', Key = ''k'', Value = ''v'', ClientId = 42, CommandId = 7,
            Seq = 1001\<rparr>"

definition put7_at :: "int \<Rightarrow> Op ApplyMsg" where
  "put7_at i = \<lparr>CommandValid = True, MsgCommand = Some put7, CommandTerm = 1,
                 CommandIndex = i\<rparr>"

definition getArgs :: CommandArgs where
  "getArgs = \<lparr>args_Key = ''k'', args_Value = [], args_Op = ''Get'', args_ClientId = 42,
               args_CommandId = 8\<rparr>"

definition zeroCommandReply :: CommandReply where
  "zeroCommandReply = \<lparr>Err = [], reply_Value = []\<rparr>"

definition mismatch3 :: "string AppendEntriesArgs" where
  "mismatch3 =
     \<lparr>args_Term = 3, LeaderId = 0, PrevLogIndex = 3, PrevLogTerm = 3,
      Entries = [], LeaderCommit = 1\<rparr>"

section \<open>Basic facts\<close>

lemma andThen_Inr [simp]: "andThen (Inr x) f = f x"
  by (simp add: andThen_def)

lemma andThen_Inl [simp]: "andThen (Inl e) f = Inl e"
  by (simp add: andThen_def)

lemma wf_log_nth:
  assumes "wf_log l" and "k < length l"
  shows "Index (l ! k) = Index (hd l) + int k"
proof -
  have "map Index l ! k = map (\<lambda>k. Index (hd l) + int k) [0..<length l] ! k"
    using assms(1) by (simp add: wf_log_def)
  then show ?thesis using assms(2) by simp
qed

lemma wf_log_nonempty: "wf_log l \<Longrightarrow> l \<noteq> []"
  by (simp add: wf_log_def)

lemma wf_dummyIndex: "wf_log l \<Longrightarrow> dummyIndex l = Inr (Index (hd l))"
  by (cases l) (simp_all add: dummyIndex_def wf_log_def)

lemma wf_last:
  assumes "wf_log l" shows "Index (last l) = Index (hd l) + int (length l) - 1"
proof -
  have ne: "l \<noteq> []" using assms by (rule wf_log_nonempty)
  then have "last l = l ! (length l - 1)" by (simp add: last_conv_nth)
  moreover have "length l - 1 < length l" using ne by simp
  ultimately show ?thesis using wf_log_nth [OF assms, of "length l - 1"] ne
    by (simp add: of_nat_diff Suc_leI)
qed

lemma wf_lastIndex: "wf_log l \<Longrightarrow> lastIndex l = Inr (Index (last l))"
  by (simp add: lastIndex_def wf_log_def)

lemma wf_convertIndex:
  "wf_log l \<Longrightarrow> Index (hd l) \<le> i \<Longrightarrow> convertIndex l i = Inr (i - Index (hd l))"
  by (simp add: convertIndex_def wf_dummyIndex)

lemma wf_getEntry:
  assumes "wf_log l" and "Index (hd l) \<le> i" and "i \<le> Index (last l)"
  shows "getEntry l i = Inr (entryAt l i)"
  using assms wf_last [OF assms(1)]
  by (simp add: getEntry_def wf_convertIndex entryAt_def)

section \<open>Leader commit advancement\<close>

lemma countMatch_eq:
  assumes "\<forall>j \<in> set js. j < length (matchIndex rf)"
  shows "countMatch rf i js num =
         Inr (num + int (length (filter (\<lambda>p. p \<noteq> me rf \<and> matchIndex rf ! p \<ge> i) js)))"
  using assms by (induction js arbitrary: num) auto

lemma countMatch_peers:
  assumes "peers rf \<le> length (matchIndex rf)"
  shows "countMatch rf i [0..<peers rf] 0 = Inr (int (holders rf i) - 1)"
  using assms by (subst countMatch_eq) (auto simp: holders_def)

lemma majority_iff: "(int n div 2 < int h) = (n < 2 * h)"
  by presburger

lemma advanceLoop_step:
  assumes "wf_log (raftLog rf)" and "Index (hd (raftLog rf)) \<le> commitIndex rf"
    and "peers rf \<le> length (matchIndex rf)" and "i \<le> Index (last (raftLog rf))"
  shows "advanceLoop rf i =
          (if committable rf i
           then Inr (rf\<lparr>commitIndex := i, trace := trace rf @ [Signal_applyCond]\<rparr>)
           else if commitIndex rf < i then advanceLoop rf (i - 1) else Inr rf)"
proof (cases "commitIndex rf < i")
  case True
  then have g: "getEntry (raftLog rf) i = Inr (entryAt (raftLog rf) i)"
    using assms by (intro wf_getEntry) auto
  show ?thesis
    using True assms(4)
    by (subst advanceLoop.simps) (simp add: countMatch_peers [OF assms(3)] majority_iff g committable_def)
next
  case False
  then show ?thesis by (subst advanceLoop.simps) (simp add: committable_def)
qed

lemma advanceLoop_none:
  assumes "wf_log (raftLog rf)" and "Index (hd (raftLog rf)) \<le> commitIndex rf"
    and "peers rf \<le> length (matchIndex rf)"
  shows "i \<le> Index (last (raftLog rf)) \<Longrightarrow> \<forall>j \<le> i. \<not> committable rf j \<Longrightarrow> advanceLoop rf i = Inr rf"
proof (induction "nat (i - commitIndex rf)" arbitrary: i)
  case 0
  then show ?case by (simp add: advanceLoop_step [OF assms])
next
  case (Suc n)
  have "advanceLoop rf (i - 1) = Inr rf"
    using Suc by (intro Suc.hyps) auto
  then show ?case using Suc.prems by (simp add: advanceLoop_step [OF assms])
qed

lemma advanceLoop_largest:
  assumes "wf_log (raftLog rf)" and "Index (hd (raftLog rf)) \<le> commitIndex rf"
    and "peers rf \<le> length (matchIndex rf)"
    and "committable rf k" and "\<forall>j > k. \<not> committable rf j"
  shows "i \<le> Index (last (raftLog rf)) \<Longrightarrow> k \<le> i \<Longrightarrow>
         advanceLoop rf i = Inr (rf\<lparr>commitIndex := k, trace := trace rf @ [Signal_applyCond]\<rparr>)"
proof (induction "nat (i - k)" arbitrary: i)
  case 0
  then have "i = k" by simp
  then show ?case using assms(4) 0 by (simp add: advanceLoop_step [OF assms(1-3)])
next
  case (Suc n)
  then have "k < i" by simp
  then have nc: "\<not> committable rf i" using assms(5) by simp
  have "commitIndex rf < i" using \<open>k < i\<close> assms(4) by (simp add: committable_def)
  moreover have "advanceLoop rf (i - 1) =
        Inr (rf\<lparr>commitIndex := k, trace := trace rf @ [Signal_applyCond]\<rparr>)"
    using Suc by (intro Suc.hyps) auto
  ultimately show ?case using Suc.prems nc by (simp add: advanceLoop_step [OF assms(1-3)])
qed

text \<open>
  C1. On a well-formed log, with \<open>commitIndex\<close> not below the dummy index and a
  \<open>matchIndex\<close> entry for every peer: called on a Leader,
  \<open>advanceCommitIndexForLeader\<close> sets \<open>commitIndex\<close> to the largest index above
  \<open>commitIndex\<close> and up to \<open>lastIndex\<close> that a strict majority holds and whose entry
  has the current term, and signals the applier; when there is no such index, or the
  node is not Leader, the node is unchanged. In particular, when every entry above
  \<open>commitIndex\<close> is of another term, nothing is committed, whatever \<open>matchIndex\<close> says.
\<close>

theorem advanceCommitIndexForLeader_largest_current_term:
  assumes "wf_log (raftLog rf)" and "Index (hd (raftLog rf)) \<le> commitIndex rf"
    and "peers rf \<le> length (matchIndex rf)"
  shows "(state rf = StateLeader \<and> committable rf i \<and> (\<forall>j > i. \<not> committable rf j) \<longrightarrow>
            advanceCommitIndexForLeader rf =
              Inr (rf\<lparr>commitIndex := i, trace := trace rf @ [Signal_applyCond]\<rparr>))
       \<and> (state rf \<noteq> StateLeader \<or> (\<forall>j. \<not> committable rf j) \<longrightarrow>
            advanceCommitIndexForLeader rf = Inr rf)
       \<and> ((\<forall>j. commitIndex rf < j \<and> j \<le> Index (last (raftLog rf)) \<longrightarrow>
                Term (entryAt (raftLog rf) j) \<noteq> currentTerm rf) \<longrightarrow>
            advanceCommitIndexForLeader rf = Inr rf)"
proof (intro conjI impI)
  assume a: "state rf = StateLeader \<and> committable rf i \<and> (\<forall>j > i. \<not> committable rf j)"
  then have "i \<le> Index (last (raftLog rf))" by (simp add: committable_def)
  then show "advanceCommitIndexForLeader rf =
              Inr (rf\<lparr>commitIndex := i, trace := trace rf @ [Signal_applyCond]\<rparr>)"
    using a advanceLoop_largest [OF assms, of i "Index (last (raftLog rf))"]
    by (simp add: advanceCommitIndexForLeader_def wf_lastIndex [OF assms(1)])
next
  assume "state rf \<noteq> StateLeader \<or> (\<forall>j. \<not> committable rf j)"
  then show "advanceCommitIndexForLeader rf = Inr rf"
    using advanceLoop_none [OF assms, of "Index (last (raftLog rf))"]
    by (auto simp: advanceCommitIndexForLeader_def wf_lastIndex [OF assms(1)])
next
  assume "\<forall>j. commitIndex rf < j \<and> j \<le> Index (last (raftLog rf)) \<longrightarrow>
                Term (entryAt (raftLog rf) j) \<noteq> currentTerm rf"
  then have "\<forall>j. \<not> committable rf j" by (auto simp: committable_def)
  then show "advanceCommitIndexForLeader rf = Inr rf"
    using advanceLoop_none [OF assms, of "Index (last (raftLog rf))"]
    by (auto simp: advanceCommitIndexForLeader_def wf_lastIndex [OF assms(1)])
qed



theorem advanceCommitIndexForLeader_witness:
  "advanceCommitIndexForLeader leader3 =
     Inr (leader3\<lparr>commitIndex := 2, trace := [Signal_applyCond]\<rparr>)
   \<and> advanceCommitIndexForLeader (leader3\<lparr>currentTerm := 3\<rparr>) = Inr (leader3\<lparr>currentTerm := 3\<rparr>)"
proof -
  have w: "wf_log (raftLog leader3)" by (simp add: wf_log_def leader3_def)
  have d: "Index (hd (raftLog leader3)) \<le> commitIndex leader3" by (simp add: leader3_def)
  have m: "peers leader3 \<le> length (matchIndex leader3)" by (simp add: leader3_def)
  have c: "committable leader3 2"
    by code_simp
  have n: "\<forall>j > 2. \<not> committable leader3 j"
    by (auto simp add: committable_def holders_def entryAt_def leader3_def eval_nat_numeral)
  have l: "state leader3 = StateLeader" by (simp add: leader3_def)
  have o: "\<forall>j. commitIndex (leader3\<lparr>currentTerm := 3\<rparr>) < j
                \<and> j \<le> Index (last (raftLog (leader3\<lparr>currentTerm := 3\<rparr>)))
              \<longrightarrow> Term (entryAt (raftLog (leader3\<lparr>currentTerm := 3\<rparr>)) j)
                    \<noteq> currentTerm (leader3\<lparr>currentTerm := 3\<rparr>)"
  proof (intro allI impI)
    fix j :: int
    assume "commitIndex (leader3\<lparr>currentTerm := 3\<rparr>) < j
                \<and> j \<le> Index (last (raftLog (leader3\<lparr>currentTerm := 3\<rparr>)))"
    then have "j = 1 \<or> j = 2 \<or> j = 3" by (auto simp add: leader3_def)
    then show "Term (entryAt (raftLog (leader3\<lparr>currentTerm := 3\<rparr>)) j)
                    \<noteq> currentTerm (leader3\<lparr>currentTerm := 3\<rparr>)"
      by (auto simp add: entryAt_def leader3_def)
  qed
  show ?thesis
    using advanceCommitIndexForLeader_largest_current_term [OF w d m, of 2]
      advanceCommitIndexForLeader_largest_current_term [of "leader3\<lparr>currentTerm := 3\<rparr>"]
      w d m c n l o
    by (simp add: leader3_def)
qed

section \<open>Snapshot threshold\<close>

lemma needSnapShot_pos:
  assumes "0 < maxraftstate kv" and "0 \<le> sz"
  shows "needSnapShot kv sz = Inr (maxraftstate kv \<le> sz)"
proof -
  have q: "sz sdiv maxraftstate kv = sz div maxraftstate kv"
    using assms by (simp add: signed_divide_int_def sgn_if)
  have "(real_of_int (sz div maxraftstate kv) > 8 / 10) = (1 \<le> sz div maxraftstate kv)"
    by linarith
  also have "\<dots> = (maxraftstate kv \<le> sz)"
    using pos_imp_zdiv_pos_iff [OF assms(1), of sz] by linarith
  finally show ?thesis
    using assms(1) by (simp add: needSnapShot_def q)
qed

text \<open>
  C9. The claim: for \<open>maxraftstate \<noteq> -1\<close>, \<open>needSnapShot\<close> is true, and the server takes
  a snapshot after applying a command, exactly when the persisted raft state size
  exceeds 0.8 times \<open>maxraftstate\<close>. With \<open>maxraftstate = 1000\<close> and a raft state of
  900 bytes the size exceeds the threshold of 800, yet the code answers false and
  the server takes no snapshot after the command: the quotient \<open>900 / 1000\<close> is taken
  on integers and is 0.
\<close>

theorem needSnapShot_900_of_1000:
  "needSnapShot (emptyKV\<lparr>maxraftstate := 1000\<rparr>) 900 = Inr False
   \<and> real_of_int 900 > 8 / 10 * real_of_int 1000
   \<and> (case listenApplyCh_command opNode 900 (emptyKV\<lparr>maxraftstate := 1000\<rparr>) (put7_at 1) of
         Inl e \<Rightarrow> False
       | Inr (kv', evs) \<Rightarrow> TakeSnapShot 1 \<notin> set evs)"
  by (simp add: needSnapShot_def signed_divide_int_def listenApplyCh_command_def Let_def
      applyOp_def GetState_def emptyKV_def put7_at_def opNode_def)

section \<open>Follower conflict handling\<close>

lemma follows_Cons: "follows p (e # es) = (Index e = p + 1 \<and> follows (p + 1) es)"
proof -
  have "map (\<lambda>k. p + 1 + int k) [0..<Suc (length es)]
        = (p + 1) # map (\<lambda>k. p + 1 + 1 + int k) [0..<length es]"
    by (simp add: upt_conv_Cons map_Suc_upt [symmetric] del: upt_Suc) 
  then show ?thesis by (auto simp: follows_def)
qed

lemma truncAppend_wf:
  assumes "wf_log l" and "Index (hd l) < i" and "i \<le> Index (last l) + 1" and "Index e = i"
  shows "truncAppend l e rest = Inr (take (nat (i - Index (hd l))) l @ e # rest)"
proof -
  have "sliceTo l i = Inr (take (nat (i - Index (hd l))) l)"
    using assms wf_last [OF assms(1)] by (simp add: sliceTo_def wf_convertIndex)
  moreover have "take (nat (i - Index (hd l))) l \<noteq> []"
    using assms wf_log_nonempty [OF assms(1)] by simp
  ultimately show ?thesis
    using assms(4) by (simp add: truncAppend_def trunc_def lastIndex_def append_raftLog_def)
qed

lemma scanEntries_spec:
  assumes "wf_log l"
  shows "Index (hd l) \<le> p \<Longrightarrow> p \<le> Index (last l) \<Longrightarrow> follows p es \<Longrightarrow>
         scanEntries l es = Inr (afterConflictScan l es)"
proof (induction es arbitrary: p)
  case Nil
  then show ?case by (simp add: afterConflictScan_def)
next
  case (Cons e es)
  from Cons.prems have i: "Index e = p + 1" and f: "follows (p + 1) es"
    by (simp_all add: follows_Cons)
  have c: "convertIndex l (Index e) = Inr (Index e - Index (hd l))"
    using Cons.prems i by (simp add: wf_convertIndex [OF assms])
  have t: "truncAppend l e es = Inr (take (nat (Index e - Index (hd l))) l @ e # es)"
    using Cons.prems i by (intro truncAppend_wf [OF assms]) auto
  have k: "(len l \<le> Index e - Index (hd l)) = (\<not> Index e \<le> Index (last l))"
    using wf_last [OF assms] by (auto simp: len_def)
  show ?case
  proof (cases "Index e \<le> Index (last l)")
    case True
    then have g: "getEntry l (Index e) = Inr (entryAt l (Index e))"
      using Cons.prems i by (intro wf_getEntry [OF assms]) auto
    show ?thesis
    proof (cases "Term (entryAt l (Index e)) = Term e")
      case same: True
      have "scanEntries l es = Inr (afterConflictScan l es)"
        using Cons.prems True f i by (intro Cons.IH [of "p + 1"]) auto
      then show ?thesis
        using True same by (simp add: c g k afterConflictScan_def present_def)
    next
      case False
      then show ?thesis
        using True by (simp add: c g k t afterConflictScan_def present_def)
    qed
  next
    case False
    then show ?thesis
      by (simp add: c k t afterConflictScan_def present_def)
  qed
qed

lemma wf_entryAt_Index:
  assumes "wf_log l" and "Index (hd l) \<le> i" and "i \<le> Index (last l)"
  shows "Index (entryAt l i) = i"
  using assms wf_last [OF assms(1)] wf_log_nth [OF assms(1), of "nat (i - Index (hd l))"]
  by (simp add: entryAt_def)

lemma matchLog_wf:
  assumes "wf_log l" and "Index (hd l) \<le> p"
  shows "matchLog l t p = Inr (p \<le> Index (last l) \<and> t = Term (entryAt l p))"
  using assms
  by (auto simp: matchLog_def wf_lastIndex wf_getEntry wf_entryAt_Index)

lemma afterConflictScan_nonempty: "l \<noteq> [] \<Longrightarrow> afterConflictScan l es \<noteq> []"
  by (simp add: afterConflictScan_def split: list.splits)

lemma HandleAppendEntries_match:
  assumes wf: "wf_log (raftLog rf)"
    and tm: "currentTerm rf \<le> args_Term args"
    and lo: "Index (hd (raftLog rf)) \<le> PrevLogIndex args"
    and hi: "PrevLogIndex args \<le> Index (last (raftLog rf))"
    and pt: "Term (entryAt (raftLog rf) (PrevLogIndex args)) = PrevLogTerm args"
    and fo: "follows (PrevLogIndex args) (Entries args)"
  shows "\<exists>rf' reply'. HandleAppendEntries rf args reply = Inr (rf', reply')
           \<and> raftLog rf' = afterConflictScan (raftLog rf) (Entries args)
           \<and> Success reply' \<and> reply_Term reply' = currentTerm rf'
           \<and> currentTerm rf' = args_Term args"
proof -
  have ne: "raftLog rf \<noteq> []" using wf by (rule wf_log_nonempty)
  have s: "scanEntries (raftLog rf) (Entries args)
           = Inr (afterConflictScan (raftLog rf) (Entries args))"
    using lo hi fo by (rule scanEntries_spec [OF wf])
  have m: "matchLog (raftLog rf) (PrevLogTerm args) (PrevLogIndex args) = Inr True"
    using hi pt by (simp add: matchLog_wf [OF wf lo])
  show ?thesis
    using tm lo ne afterConflictScan_nonempty [OF ne, of "Entries args"]
    by (auto simp: HandleAppendEntries_def Let_def ChangeState_def persist_def
        wf_dummyIndex [OF wf] wf_lastIndex [OF wf] m s lastIndex_def)
qed

text \<open>
  C2. For a request with \<open>args.Term \<ge> currentTerm\<close> whose \<open>PrevLogIndex\<close> is not behind
  the dummy entry, whose entries are numbered from \<open>PrevLogIndex + 1\<close> on and for which
  \<open>matchLog\<close> holds, on a well-formed log: the handler returns, and the log after is
  the log truncated at the first entry of the request that is beyond \<open>lastIndex\<close> or
  differs in term from the stored one, followed by the request's entries from that
  one on; it is the old log when every entry is present. The reply is a success and
  carries the node's term. In the scenario of the spec, the follower's log
  \<open>[1:t1, 2:t1, 3:t2]\<close> (after its dummy entry) and the entries \<open>[3:t3, 4:t3]\<close> after
  \<open>prevLogIndex = 2\<close>, \<open>prevLogTerm = t1\<close> give the log \<open>[1:t1, 2:t1, 3:t3, 4:t3]\<close>.
\<close>

theorem HandleAppendEntries_conflict_scan:
  assumes "wf_log (raftLog rf)"
    and "currentTerm rf \<le> args_Term args"
    and "Index (hd (raftLog rf)) \<le> PrevLogIndex args"
    and "matchLog (raftLog rf) (PrevLogTerm args) (PrevLogIndex args) = Inr True"
    and "follows (PrevLogIndex args) (Entries args)"
  shows "(\<exists>rf' reply'. HandleAppendEntries rf args reply = Inr (rf', reply')
            \<and> raftLog rf' = afterConflictScan (raftLog rf) (Entries args)
            \<and> Success reply' \<and> reply_Term reply' = currentTerm rf'
            \<and> currentTerm rf' = args_Term args)
       \<and> (raftLog rf0 = [\<lparr>Index = 0, Term = t0, Command = c0\<rparr>,
                          \<lparr>Index = 1, Term = t1, Command = c1\<rparr>,
                          \<lparr>Index = 2, Term = t1, Command = c2\<rparr>,
                          \<lparr>Index = 3, Term = t2, Command = c3\<rparr>]
           \<and> currentTerm rf0 \<le> args_Term args0
           \<and> PrevLogIndex args0 = 2 \<and> PrevLogTerm args0 = t1
           \<and> Entries args0 = [\<lparr>Index = 3, Term = t3, Command = a3\<rparr>,
                              \<lparr>Index = 4, Term = t3, Command = a4\<rparr>]
          \<longrightarrow> (\<exists>rf' reply'. HandleAppendEntries rf0 args0 reply0 = Inr (rf', reply')
                 \<and> map (\<lambda>e. (Index e, Term e)) (raftLog rf')
                     = [(0, t0), (1, t1), (2, t1), (3, t3), (4, t3)]
                 \<and> Success reply' \<and> reply_Term reply' = currentTerm rf'))"
proof (intro conjI impI)
  have "PrevLogIndex args \<le> Index (last (raftLog rf))"
    and "Term (entryAt (raftLog rf) (PrevLogIndex args)) = PrevLogTerm args"
    using assms(4) by (simp_all add: matchLog_wf [OF assms(1,3)])
  then show "\<exists>rf' reply'. HandleAppendEntries rf args reply = Inr (rf', reply')
            \<and> raftLog rf' = afterConflictScan (raftLog rf) (Entries args)
            \<and> Success reply' \<and> reply_Term reply' = currentTerm rf'
            \<and> currentTerm rf' = args_Term args"
    using HandleAppendEntries_match [OF assms(1,2,3) _ _ assms(5), of reply] by blast
next
  assume a: "raftLog rf0 = [\<lparr>Index = 0, Term = t0, Command = c0\<rparr>,
                          \<lparr>Index = 1, Term = t1, Command = c1\<rparr>,
                          \<lparr>Index = 2, Term = t1, Command = c2\<rparr>,
                          \<lparr>Index = 3, Term = t2, Command = c3\<rparr>]
           \<and> currentTerm rf0 \<le> args_Term args0
           \<and> PrevLogIndex args0 = 2 \<and> PrevLogTerm args0 = t1
           \<and> Entries args0 = [\<lparr>Index = 3, Term = t3, Command = a3\<rparr>,
                              \<lparr>Index = 4, Term = t3, Command = a4\<rparr>]"
  have w: "wf_log (raftLog rf0)" using a by (simp add: wf_log_def)
  have f: "follows (PrevLogIndex args0) (Entries args0)" using a by (simp add: follows_def)
  have s: "map (\<lambda>e. (Index e, Term e)) (afterConflictScan (raftLog rf0) (Entries args0))
           = [(0, t0), (1, t1), (2, t1), (3, t3), (4, t3)]"
    using a by (simp add: afterConflictScan_def present_def entryAt_def)
  show "\<exists>rf' reply'. HandleAppendEntries rf0 args0 reply0 = Inr (rf', reply')
                 \<and> map (\<lambda>e. (Index e, Term e)) (raftLog rf')
                     = [(0, t0), (1, t1), (2, t1), (3, t3), (4, t3)]
                 \<and> Success reply' \<and> reply_Term reply' = currentTerm rf'"
    using HandleAppendEntries_match [OF w _ _ _ _ f, of reply0] a s
    by (auto simp: entryAt_def)
qed

theorem HandleAppendEntries_conflict_scan_witness:
  "(case HandleAppendEntries follower3 request34 zeroReply of
      Inl e \<Rightarrow> False
    | Inr (rf', reply') \<Rightarrow>
        raftLog rf' = [\<lparr>Index = 0, Term = 0, Command = None\<rparr>,
                       \<lparr>Index = 1, Term = 1, Command = Some ''a''\<rparr>,
                       \<lparr>Index = 2, Term = 1, Command = Some ''b''\<rparr>,
                       \<lparr>Index = 3, Term = 3, Command = Some ''x''\<rparr>,
                       \<lparr>Index = 4, Term = 3, Command = Some ''y''\<rparr>]
        \<and> Success reply' \<and> reply_Term reply' = 3 \<and> currentTerm rf' = 3)"
proof -
  have w: "wf_log (raftLog follower3)" by (simp add: wf_log_def follower3_def)
  have t: "currentTerm follower3 \<le> args_Term request34"
    by (simp add: follower3_def request34_def)
  have d: "Index (hd (raftLog follower3)) \<le> PrevLogIndex request34"
    by (simp add: follower3_def request34_def)
  have m: "matchLog (raftLog follower3) (PrevLogTerm request34) (PrevLogIndex request34)
           = Inr True"
    by (simp add: matchLog_def lastIndex_def getEntry_def convertIndex_def dummyIndex_def
        follower3_def request34_def)
  have f: "follows (PrevLogIndex request34) (Entries request34)"
    by (simp add: follows_def request34_def)
  have s: "afterConflictScan (raftLog follower3) (Entries request34)
           = [\<lparr>Index = 0, Term = 0, Command = None\<rparr>,
              \<lparr>Index = 1, Term = 1, Command = Some ''a''\<rparr>,
              \<lparr>Index = 2, Term = 1, Command = Some ''b''\<rparr>,
              \<lparr>Index = 3, Term = 3, Command = Some ''x''\<rparr>,
              \<lparr>Index = 4, Term = 3, Command = Some ''y''\<rparr>]"
    by (simp add: afterConflictScan_def present_def entryAt_def follower3_def request34_def)
  obtain rf' reply' where r: "HandleAppendEntries follower3 request34 zeroReply = Inr (rf', reply')"
    and "raftLog rf' = afterConflictScan (raftLog follower3) (Entries request34)"
    and "Success reply'" and "reply_Term reply' = currentTerm rf'"
    and "currentTerm rf' = args_Term request34"
    using HandleAppendEntries_conflict_scan [OF w t d m f, of zeroReply] by blast
  then show ?thesis using s by (simp add: request34_def)
qed

section \<open>Applier ordering\<close>

lemma go_copy_same_length: "length dst = length src \<Longrightarrow> go_copy dst src = src"
  by (simp add: go_copy_def)

lemma wf_slice:
  assumes "wf_log l" and "Index (hd l) \<le> lo" and "lo \<le> hi" and "hi \<le> Index (last l) + 1"
  shows "slice l lo hi = Inr (take (nat (hi - lo)) (drop (nat (lo - Index (hd l))) l))"
proof -
  have "nat (hi - Index (hd l)) - nat (lo - Index (hd l)) = nat (hi - lo)"
    using assms by linarith
  then show ?thesis
    using assms wf_last [OF assms(1)] by (simp add: slice_def wf_convertIndex)
qed

lemma applier_collect_wf:
  assumes "wf_log (raftLog rf)" and "Index (hd (raftLog rf)) \<le> lastApplied rf"
    and "lastApplied rf < commitIndex rf" and "commitIndex rf \<le> Index (last (raftLog rf))"
  shows "applier_collect rf =
           Inr (Some (commitIndex rf,
                      take (nat (commitIndex rf - lastApplied rf))
                           (drop (nat (lastApplied rf + 1 - Index (hd (raftLog rf)))) (raftLog rf))))"
proof -
  let ?src = "take (nat (commitIndex rf - lastApplied rf))
                   (drop (nat (lastApplied rf + 1 - Index (hd (raftLog rf)))) (raftLog rf))"
  have s: "slice (raftLog rf) (lastApplied rf + 1) (commitIndex rf + 1) = Inr ?src"
    using assms by (subst wf_slice) auto
  have "length ?src = nat (commitIndex rf - lastApplied rf)"
    using assms wf_last [OF assms(1)] by auto
  then have "go_copy (replicate (nat (commitIndex rf - lastApplied rf)) zeroEntry) ?src = ?src"
    by (intro go_copy_same_length) simp
  then show ?thesis using assms(3) s by (simp add: applier_collect_def)
qed

lemma wf_window_nth:
  assumes "wf_log l" and "Index (hd l) \<le> lo" and "lo + int n \<le> Index (last l) + 1" and "k < n"
  shows "take n (drop (nat (lo - Index (hd l))) l) ! k = entryAt l (lo + int k)"
proof -
  have "nat (lo - Index (hd l)) + k = nat (lo + int k - Index (hd l))"
    using assms by linarith
  moreover have "nat (lo - Index (hd l)) + k < length l"
    using assms wf_last [OF assms(1)] by linarith
  ultimately show ?thesis using assms(4) by (simp add: entryAt_def)
qed

lemma wf_window_Index:
  assumes "wf_log l" and "Index (hd l) \<le> lo" and "lo + int n \<le> Index (last l) + 1"
  shows "map Index (take n (drop (nat (lo - Index (hd l))) l)) = [lo..lo + int n - 1]"
proof (rule nth_equalityI)
  have len: "length (take n (drop (nat (lo - Index (hd l))) l)) = n"
    using assms wf_last [OF assms(1)] by auto
  then show "length (map Index (take n (drop (nat (lo - Index (hd l))) l)))
             = length [lo..lo + int n - 1]" by simp
  fix k assume "k < length (map Index (take n (drop (nat (lo - Index (hd l))) l)))"
  then have k: "k < n" using len by simp
  have "Index (entryAt l (lo + int k)) = lo + int k"
    using assms k by (intro wf_entryAt_Index) auto
  then show "map Index (take n (drop (nat (lo - Index (hd l))) l)) ! k = [lo..lo + int n - 1] ! k"
    using k len wf_window_nth [OF assms k] by simp
qed

lemma upto_increasing: "sorted_wrt (<) [i..j::int]"
  by (simp add: sorted_wrt_iff_nth_less)

lemma applier_body_wf:
  assumes "wf_log (raftLog rf)" and "Index (hd (raftLog rf)) \<le> lastApplied rf"
    and "commitIndex rf \<le> Index (last (raftLog rf))" and "lastApplied rf < commitIndex rf"
  shows "\<exists>msgs. applier_body rf = Inr (Some (msgs, rf\<lparr>lastApplied := commitIndex rf\<rparr>))
           \<and> map CommandIndex msgs = [lastApplied rf + 1..commitIndex rf]
           \<and> (\<forall>k < length msgs.
                 msgs ! k = \<lparr>CommandValid = True,
                             MsgCommand = Command (entryAt (raftLog rf) (lastApplied rf + 1 + int k)),
                             CommandTerm = Term (entryAt (raftLog rf) (lastApplied rf + 1 + int k)),
                             CommandIndex = lastApplied rf + 1 + int k\<rparr>)"
proof -
  let ?n = "nat (commitIndex rf - lastApplied rf)"
  let ?w = "take ?n (drop (nat (lastApplied rf + 1 - Index (hd (raftLog rf)))) (raftLog rf))"
  have b: "lastApplied rf + 1 + int ?n \<le> Index (last (raftLog rf)) + 1"
    using assms by simp
  have d: "Index (hd (raftLog rf)) \<le> lastApplied rf + 1" using assms(2) by simp
  have len: "length ?w = ?n" using assms wf_last [OF assms(1)] by auto
  have body: "applier_body rf = Inr (Some (applier_emit ?w, rf\<lparr>lastApplied := commitIndex rf\<rparr>))"
    using assms(4)
    by (simp add: applier_body_def applier_collect_wf [OF assms(1,2,4,3)] applier_finish_def max_def)
  have "map CommandIndex (applier_emit ?w) = map Index ?w"
    by (simp add: applier_emit_def comp_def)
  also have "\<dots> = [lastApplied rf + 1..lastApplied rf + 1 + int ?n - 1]"
    using d b by (rule wf_window_Index [OF assms(1)])
  also have "\<dots> = [lastApplied rf + 1..commitIndex rf]"
    using assms(4) by simp
  finally have idx: "map CommandIndex (applier_emit ?w) = [lastApplied rf + 1..commitIndex rf]" .
  have nth: "\<forall>k < length (applier_emit ?w).
        applier_emit ?w ! k = \<lparr>CommandValid = True,
                             MsgCommand = Command (entryAt (raftLog rf) (lastApplied rf + 1 + int k)),
                             CommandTerm = Term (entryAt (raftLog rf) (lastApplied rf + 1 + int k)),
                             CommandIndex = lastApplied rf + 1 + int k\<rparr>"
  proof (intro allI impI)
    fix k assume "k < length (applier_emit ?w)"
    then have k: "k < ?n" using len by (simp add: applier_emit_def)
    have w: "?w ! k = entryAt (raftLog rf) (lastApplied rf + 1 + int k)"
      using d b k by (rule wf_window_nth [OF assms(1)])
    have "Index (entryAt (raftLog rf) (lastApplied rf + 1 + int k)) = lastApplied rf + 1 + int k"
      using assms k by (intro wf_entryAt_Index) auto
    then show "applier_emit ?w ! k = \<lparr>CommandValid = True,
                             MsgCommand = Command (entryAt (raftLog rf) (lastApplied rf + 1 + int k)),
                             CommandTerm = Term (entryAt (raftLog rf) (lastApplied rf + 1 + int k)),
                             CommandIndex = lastApplied rf + 1 + int k\<rparr>"
      using k len w by (simp add: applier_emit_def)
  qed
  show ?thesis using body idx nth by blast
qed

text \<open>
  C3. On a well-formed log with \<open>lastApplied\<close> not behind the dummy entry and
  \<open>commitIndex\<close> not beyond \<open>lastIndex\<close>: an iteration of the applier that finds
  \<open>lastApplied \<ge> commitIndex\<close> waits and sends nothing; otherwise it sends exactly the
  entries at the indices \<open>lastApplied + 1\<close> to \<open>commitIndex\<close>, in strictly increasing
  order, and sets \<open>lastApplied\<close> to the maximum of \<open>lastApplied\<close> and the \<open>commitIndex\<close>
  it read; \<open>lastApplied \<le> commitIndex\<close> holds before and after. Every iteration that
  starts from a node whose \<open>lastApplied\<close> is at least the new one sends only higher
  indices, so no index is sent twice. The last step takes the maximum whatever the
  node is by then.
\<close>

theorem applier_body_in_order_once:
  assumes "wf_log (raftLog (rf :: 'c Raft))" and "Index (hd (raftLog rf)) \<le> lastApplied rf"
    and "commitIndex rf \<le> Index (last (raftLog rf))"
  shows "(commitIndex rf \<le> lastApplied rf \<longrightarrow> applier_body rf = Inr None)
       \<and> (lastApplied rf < commitIndex rf \<longrightarrow>
            (\<exists>msgs rf'. applier_body rf = Inr (Some (msgs, rf'))
               \<and> map CommandIndex msgs = [lastApplied rf + 1..commitIndex rf]
               \<and> sorted_wrt (<) (map CommandIndex msgs)
               \<and> (\<forall>k < length msgs.
                     msgs ! k = \<lparr>CommandValid = True,
                                 MsgCommand = Command (entryAt (raftLog rf) (lastApplied rf + 1 + int k)),
                                 CommandTerm = Term (entryAt (raftLog rf) (lastApplied rf + 1 + int k)),
                                 CommandIndex = lastApplied rf + 1 + int k\<rparr>)
               \<and> rf' = rf\<lparr>lastApplied := max (lastApplied rf) (commitIndex rf)\<rparr>
               \<and> lastApplied rf' \<le> commitIndex rf'
               \<and> (\<forall>(rf2 :: 'c Raft) msgs2 rf2'.
                     wf_log (raftLog rf2) \<and> Index (hd (raftLog rf2)) \<le> lastApplied rf2
                     \<and> commitIndex rf2 \<le> Index (last (raftLog rf2))
                     \<and> lastApplied rf' \<le> lastApplied rf2
                     \<and> applier_body rf2 = Inr (Some (msgs2, rf2'))
                     \<longrightarrow> (\<forall>i \<in> set (map CommandIndex msgs).
                            \<forall>j \<in> set (map CommandIndex msgs2). i < j))))
       \<and> (\<forall>rf2 :: 'c Raft. lastApplied (applier_finish rf2 (commitIndex rf))
                   = max (lastApplied rf2) (commitIndex rf))"
proof (intro conjI impI allI)
  assume "commitIndex rf \<le> lastApplied rf"
  then show "applier_body rf = Inr None"
    by (simp add: applier_body_def applier_collect_def)
next
  fix rf2 :: "'c Raft"
  show "lastApplied (applier_finish rf2 (commitIndex rf)) = max (lastApplied rf2) (commitIndex rf)"
    by (simp add: applier_finish_def)
next
  assume lt: "lastApplied rf < commitIndex rf"
  obtain msgs where b: "applier_body rf = Inr (Some (msgs, rf\<lparr>lastApplied := commitIndex rf\<rparr>))"
    and i: "map CommandIndex msgs = [lastApplied rf + 1..commitIndex rf]"
    and n: "\<forall>k < length msgs.
                 msgs ! k = \<lparr>CommandValid = True,
                             MsgCommand = Command (entryAt (raftLog rf) (lastApplied rf + 1 + int k)),
                             CommandTerm = Term (entryAt (raftLog rf) (lastApplied rf + 1 + int k)),
                             CommandIndex = lastApplied rf + 1 + int k\<rparr>"
    using applier_body_wf [OF assms lt] by blast
  have later: "\<forall>i \<in> set (map CommandIndex msgs). \<forall>j \<in> set (map CommandIndex msgs2). i < j"
    if h: "wf_log (raftLog rf2) \<and> Index (hd (raftLog rf2)) \<le> lastApplied rf2
           \<and> commitIndex rf2 \<le> Index (last (raftLog rf2))
           \<and> lastApplied (rf\<lparr>lastApplied := max (lastApplied rf) (commitIndex rf)\<rparr>) \<le> lastApplied rf2
           \<and> applier_body rf2 = Inr (Some (msgs2, rf2'))"
    for rf2 :: "'c Raft" and msgs2 rf2'
  proof -
    have lt2: "lastApplied rf2 < commitIndex rf2"
      using h by (auto simp: applier_body_def applier_collect_def split: if_splits)
    obtain m where "applier_body rf2 = Inr (Some (m, rf2\<lparr>lastApplied := commitIndex rf2\<rparr>))"
      and "map CommandIndex m = [lastApplied rf2 + 1..commitIndex rf2]"
      using h applier_body_wf [of rf2, OF _ _ _ lt2] by blast
    then have "map CommandIndex msgs2 = [lastApplied rf2 + 1..commitIndex rf2]"
      using h by simp
    then show ?thesis using i h lt by auto
  qed
  show "\<exists>msgs rf'. applier_body rf = Inr (Some (msgs, rf'))
               \<and> map CommandIndex msgs = [lastApplied rf + 1..commitIndex rf]
               \<and> sorted_wrt (<) (map CommandIndex msgs)
               \<and> (\<forall>k < length msgs.
                     msgs ! k = \<lparr>CommandValid = True,
                                 MsgCommand = Command (entryAt (raftLog rf) (lastApplied rf + 1 + int k)),
                                 CommandTerm = Term (entryAt (raftLog rf) (lastApplied rf + 1 + int k)),
                                 CommandIndex = lastApplied rf + 1 + int k\<rparr>)
               \<and> rf' = rf\<lparr>lastApplied := max (lastApplied rf) (commitIndex rf)\<rparr>
               \<and> lastApplied rf' \<le> commitIndex rf'
               \<and> (\<forall>(rf2 :: 'c Raft) msgs2 rf2'.
                     wf_log (raftLog rf2) \<and> Index (hd (raftLog rf2)) \<le> lastApplied rf2
                     \<and> commitIndex rf2 \<le> Index (last (raftLog rf2))
                     \<and> lastApplied rf' \<le> lastApplied rf2
                     \<and> applier_body rf2 = Inr (Some (msgs2, rf2'))
                     \<longrightarrow> (\<forall>i \<in> set (map CommandIndex msgs).
                            \<forall>j \<in> set (map CommandIndex msgs2). i < j))"
  proof (intro exI conjI)
    show "applier_body rf = Inr (Some (msgs, rf\<lparr>lastApplied := max (lastApplied rf) (commitIndex rf)\<rparr>))"
      using b lt by (simp add: max_def)
    show "map CommandIndex msgs = [lastApplied rf + 1..commitIndex rf]" by (rule i)
    show "sorted_wrt (<) (map CommandIndex msgs)" by (simp add: i upto_increasing)
    show "\<forall>k < length msgs.
                     msgs ! k = \<lparr>CommandValid = True,
                                 MsgCommand = Command (entryAt (raftLog rf) (lastApplied rf + 1 + int k)),
                                 CommandTerm = Term (entryAt (raftLog rf) (lastApplied rf + 1 + int k)),
                                 CommandIndex = lastApplied rf + 1 + int k\<rparr>" by (rule n)
    show "rf\<lparr>lastApplied := max (lastApplied rf) (commitIndex rf)\<rparr>
          = rf\<lparr>lastApplied := max (lastApplied rf) (commitIndex rf)\<rparr>" by (rule refl)
    show "lastApplied (rf\<lparr>lastApplied := max (lastApplied rf) (commitIndex rf)\<rparr>)
          \<le> commitIndex (rf\<lparr>lastApplied := max (lastApplied rf) (commitIndex rf)\<rparr>)"
      using lt by simp
    show "\<forall>(rf2 :: 'c Raft) msgs2 rf2'.
                     wf_log (raftLog rf2) \<and> Index (hd (raftLog rf2)) \<le> lastApplied rf2
                     \<and> commitIndex rf2 \<le> Index (last (raftLog rf2))
                     \<and> lastApplied (rf\<lparr>lastApplied := max (lastApplied rf) (commitIndex rf)\<rparr>) \<le> lastApplied rf2
                     \<and> applier_body rf2 = Inr (Some (msgs2, rf2'))
                     \<longrightarrow> (\<forall>i \<in> set (map CommandIndex msgs).
                            \<forall>j \<in> set (map CommandIndex msgs2). i < j)"
      using later by blast
  qed
qed

theorem applier_body_witness:
  "(case applier_body applying3 of
      Inr (Some (msgs, rf')) \<Rightarrow>
        map CommandIndex msgs = [2, 3] \<and> lastApplied rf' = 3 \<and> commitIndex rf' = 3
    | _ \<Rightarrow> False)"
proof -
  have w: "wf_log (raftLog applying3)" by (simp add: wf_log_def applying3_def)
  have d: "Index (hd (raftLog applying3)) \<le> lastApplied applying3" by (simp add: applying3_def)
  have c: "commitIndex applying3 \<le> Index (last (raftLog applying3))" by (simp add: applying3_def)
  have lt: "lastApplied applying3 < commitIndex applying3" by (simp add: applying3_def)
  obtain msgs rf' where "applier_body applying3 = Inr (Some (msgs, rf'))"
    and "map CommandIndex msgs = [lastApplied applying3 + 1..commitIndex applying3]"
    and "rf' = applying3\<lparr>lastApplied := max (lastApplied applying3) (commitIndex applying3)\<rparr>"
    using applier_body_in_order_once [OF w d c] lt by blast
  then show ?thesis by (simp add: applying3_def upto_rec1)
qed

section \<open>Stale replies\<close>

lemma advanceLoop_frame:
  assumes "wf_log (raftLog rf)" and "Index (hd (raftLog rf)) \<le> commitIndex rf"
    and "peers rf \<le> length (matchIndex rf)"
  shows "i \<le> Index (last (raftLog rf)) \<Longrightarrow>
         \<exists>c t. advanceLoop rf i = Inr (rf\<lparr>commitIndex := c, trace := t\<rparr>)"
proof (induction "nat (i - commitIndex rf)" arbitrary: i)
  case 0
  have "rf = rf\<lparr>commitIndex := commitIndex rf, trace := trace rf\<rparr>" by simp
  then have "\<exists>c t. rf = rf\<lparr>commitIndex := c, trace := t\<rparr>" by blast
  then show ?case using 0 by (subst advanceLoop_step [OF assms]) (auto simp: committable_def)
next
  case (Suc n)
  have "\<exists>c t. advanceLoop rf (i - 1) = Inr (rf\<lparr>commitIndex := c, trace := t\<rparr>)"
    using Suc by (intro Suc.hyps) auto
  moreover have "commitIndex rf < i" using Suc by simp
  ultimately show ?case using Suc.prems by (subst advanceLoop_step [OF assms]) auto
qed

lemma advanceCommitIndexForLeader_frame:
  assumes "wf_log (raftLog rf)" and "Index (hd (raftLog rf)) \<le> commitIndex rf"
    and "peers rf \<le> length (matchIndex rf)"
  shows "\<exists>c t. advanceCommitIndexForLeader rf = Inr (rf\<lparr>commitIndex := c, trace := t\<rparr>)"
proof (cases "state rf = StateLeader")
  case True
  then show ?thesis
    using advanceLoop_frame [OF assms, of "Index (last (raftLog rf))"]
    by (simp add: advanceCommitIndexForLeader_def wf_lastIndex [OF assms(1)])
next
  case False
  have "rf = rf\<lparr>commitIndex := commitIndex rf, trace := trace rf\<rparr>" by simp
  then have "\<exists>c t. rf = rf\<lparr>commitIndex := c, trace := t\<rparr>" by blast
  then show ?thesis using False by (simp add: advanceCommitIndexForLeader_def)
qed

lemma processAppendEntriesReply_stale:
  assumes "reply_Term reply \<le> currentTerm rf" and "peer < length (nextIndex rf)"
    and "\<not> reply_guard rf peer args reply"
  shows "processAppendEntriesReply rf peer args reply = Inr rf"
  using assms by (auto simp: processAppendEntriesReply_def reply_guard_def)

lemma processAppendEntriesReply_success:
  assumes wf: "wf_log (raftLog rf)" and ci: "Index (hd (raftLog rf)) \<le> commitIndex rf"
    and mi: "peers rf \<le> length (matchIndex rf)" and ni: "peer < length (nextIndex rf)"
    and pe: "peer < peers rf" and nm: "peer \<noteq> me rf"
    and g: "reply_guard rf peer args reply" and su: "Success reply"
  shows "\<exists>rf'. processAppendEntriesReply rf peer args reply = Inr rf'
           \<and> nextIndex rf ! peer \<le> nextIndex rf' ! peer
           \<and> matchIndex rf ! peer \<le> matchIndex rf' ! peer"
proof -
  let ?newNext = "int (length (Entries args)) + PrevLogIndex args + 1"
  let ?newMatch = "int (length (Entries args)) + PrevLogIndex args"
  let ?rf1 = "if ?newNext > nextIndex rf ! peer
              then rf\<lparr>nextIndex := (nextIndex rf)[peer := ?newNext]\<rparr> else rf"
  let ?rf2 = "if ?newMatch > matchIndex ?rf1 ! peer
              then ?rf1\<lparr>matchIndex := (matchIndex ?rf1)[peer := ?newMatch]\<rparr> else ?rf1"
  have pm: "peer < length (matchIndex rf)" using pe mi by simp
  have w2: "wf_log (raftLog ?rf2)" using wf by simp
  have c2: "Index (hd (raftLog ?rf2)) \<le> commitIndex ?rf2" using ci by simp
  have m2: "peers ?rf2 \<le> length (matchIndex ?rf2)" using mi by simp
  obtain c t where a: "advanceCommitIndexForLeader ?rf2 = Inr (?rf2\<lparr>commitIndex := c, trace := t\<rparr>)"
    using advanceCommitIndexForLeader_frame [OF w2 c2 m2] by blast
  let ?rf3 = "?rf2\<lparr>commitIndex := c, trace := t\<rparr>"
  have n3: "nextIndex rf ! peer \<le> nextIndex ?rf3 ! peer" using ni by simp
  have m3: "matchIndex rf ! peer \<le> matchIndex ?rf3 ! peer" using pm by simp
  have l3: "lastIndex (raftLog ?rf3) = Inr (Index (last (raftLog rf)))"
    using wf by (simp add: wf_lastIndex)
  have s3: "signalTryAppend ?rf3 peer = Inr (?rf3\<lparr>trace := trace ?rf3 @ [Signal_tryAppendCond peer]\<rparr>)"
    using pe nm by (simp add: signalTryAppend_def)
  have l1: "\<not> length (matchIndex ?rf1) \<le> peer" using pm by simp
  have p0: "processAppendEntriesReply rf peer args reply =
           andThen (advanceCommitIndexForLeader ?rf2)
             (\<lambda>r. andThen (lastIndex (raftLog r))
                (\<lambda>li. if nextIndex r ! peer \<noteq> li + 1 then signalTryAppend r peer else Inr r))"
    using g su ni l1
    by (simp add: processAppendEntriesReply_def reply_guard_def Let_def del: if_split cong: if_cong)
  have p: "processAppendEntriesReply rf peer args reply =
           (if nextIndex ?rf3 ! peer \<noteq> Index (last (raftLog rf)) + 1
            then Inr (?rf3\<lparr>trace := trace ?rf3 @ [Signal_tryAppendCond peer]\<rparr>)
            else Inr ?rf3)"
    unfolding p0 a andThen_Inr l3 s3 ..
  show ?thesis
  proof (cases "nextIndex ?rf3 ! peer \<noteq> Index (last (raftLog rf)) + 1")
    case True
    have "nextIndex rf ! peer \<le> nextIndex (?rf3\<lparr>trace := trace ?rf3 @ [Signal_tryAppendCond peer]\<rparr>) ! peer"
      using n3 by simp
    moreover have "matchIndex rf ! peer \<le> matchIndex (?rf3\<lparr>trace := trace ?rf3 @ [Signal_tryAppendCond peer]\<rparr>) ! peer"
      using m3 by simp
    ultimately show ?thesis using True p by (metis (no_types, lifting))
  next
    case False
    then show ?thesis using p n3 m3 by (metis (no_types, lifting))
  qed
qed

text \<open>
  C4. When the reply's term is not above \<open>currentTerm\<close> and the staleness guard fails
  (the node is not Leader, or the reply's term or the request's term is not
  \<open>currentTerm\<close>, or \<open>args.PrevLogIndex \<noteq> nextIndex[peer] - 1\<close>),
  \<open>processAppendEntriesReply\<close> returns the node as it was: no field changes and nothing
  is signalled. When the guard holds and the reply is a success, on a well-formed
  node and for a peer other than the node itself, the call returns and neither
  \<open>nextIndex[peer]\<close> nor \<open>matchIndex[peer]\<close> is lower after it.
\<close>

theorem processAppendEntriesReply_stale_guard:
  assumes "peer < length (nextIndex rf)"
  shows "(reply_Term reply \<le> currentTerm rf \<and> \<not> reply_guard rf peer args reply \<longrightarrow>
            processAppendEntriesReply rf peer args reply = Inr rf)
       \<and> (wf_log (raftLog rf) \<and> Index (hd (raftLog rf)) \<le> commitIndex rf
           \<and> peers rf \<le> length (matchIndex rf) \<and> peer < peers rf \<and> peer \<noteq> me rf
           \<and> reply_guard rf peer args reply \<and> Success reply \<longrightarrow>
            (\<exists>rf'. processAppendEntriesReply rf peer args reply = Inr rf'
               \<and> nextIndex rf ! peer \<le> nextIndex rf' ! peer
               \<and> matchIndex rf ! peer \<le> matchIndex rf' ! peer))"
  using assms processAppendEntriesReply_stale [of reply rf peer args]
    processAppendEntriesReply_success [of rf peer args reply]
  by blast

theorem processAppendEntriesReply_stale_guard_witness:
  "processAppendEntriesReply leader3 1 staleRequest successReply = Inr leader3
   \<and> (case processAppendEntriesReply leader3 1 freshRequest successReply of
        Inl e \<Rightarrow> False
      | Inr rf' \<Rightarrow> nextIndex leader3 ! 1 \<le> nextIndex rf' ! 1
                  \<and> matchIndex leader3 ! 1 \<le> matchIndex rf' ! 1)"
proof -
  have p: "1 < length (nextIndex leader3)" by (simp add: leader3_def)
  have t: "reply_Term successReply \<le> currentTerm leader3"
    by (simp add: leader3_def successReply_def)
  have st: "\<not> reply_guard leader3 1 staleRequest successReply"
    by (simp add: reply_guard_def leader3_def staleRequest_def)
  have fr: "reply_guard leader3 1 freshRequest successReply"
    by (simp add: reply_guard_def leader3_def freshRequest_def successReply_def)
  have w: "wf_log (raftLog leader3)" by (simp add: wf_log_def leader3_def)
  have o: "Index (hd (raftLog leader3)) \<le> commitIndex leader3
           \<and> peers leader3 \<le> length (matchIndex leader3) \<and> 1 < peers leader3
           \<and> 1 \<noteq> me leader3 \<and> Success successReply"
    by (simp add: leader3_def successReply_def)
  have a: "processAppendEntriesReply leader3 1 staleRequest successReply = Inr leader3"
    using processAppendEntriesReply_stale_guard [OF p, of successReply staleRequest] t st
    by blast
  obtain rf' where "processAppendEntriesReply leader3 1 freshRequest successReply = Inr rf'"
    and "nextIndex leader3 ! 1 \<le> nextIndex rf' ! 1"
    and "matchIndex leader3 ! 1 \<le> matchIndex rf' ! 1"
    using processAppendEntriesReply_stale_guard [OF p, of successReply freshRequest] fr w o
    by blast
  then show ?thesis using a by simp
qed

section \<open>Rejections, the request behind the dummy entry, and the sender's clamp\<close>

lemma walkBack_wf:
  assumes "wf_log l"
  shows "Index (hd l) \<le> i \<Longrightarrow> i \<le> Index (last l) \<Longrightarrow>
         \<exists>j. walkBack l (Index (hd l)) t i = Inr j \<and> j \<le> i
              \<and> (Index (hd l) < i \<longrightarrow> Index (hd l) < j) \<and> (i = Index (hd l) \<longrightarrow> j = i)"
proof (induction "nat (i - Index (hd l))" arbitrary: i)
  case 0
  then show ?case by (subst walkBack.simps) simp
next
  case (Suc n)
  have g: "getEntry l i = Inr (entryAt l i)"
    using Suc.prems by (intro wf_getEntry [OF assms]) auto
  show ?case
  proof (cases "Index (hd l) + 1 < i")
    case True
    obtain j where "walkBack l (Index (hd l)) t (i - 1) = Inr j" and "j \<le> i - 1"
      and "Index (hd l) < i - 1 \<longrightarrow> Index (hd l) < j"
    proof -
      have "n = nat (i - 1 - Index (hd l))" using Suc.hyps(2) by simp
      moreover have "Index (hd l) \<le> i - 1" and "i - 1 \<le> Index (last l)"
        using True Suc.prems by simp_all
      ultimately have "\<exists>j. walkBack l (Index (hd l)) t (i - 1) = Inr j \<and> j \<le> i - 1
              \<and> (Index (hd l) < i - 1 \<longrightarrow> Index (hd l) < j)
              \<and> (i - 1 = Index (hd l) \<longrightarrow> j = i - 1)"
        by (rule Suc.hyps(1))
      then show ?thesis using that by blast
    qed
    then show ?thesis using True by (subst walkBack.simps) (auto simp: g)
  next
    case False
    then show ?thesis using Suc.hyps(2) by (subst walkBack.simps) auto
  qed
qed

lemma HandleAppendEntries_reject:
  assumes wf: "wf_log (raftLog rf)" and tm: "currentTerm rf \<le> args_Term args"
    and lo: "Index (hd (raftLog rf)) \<le> PrevLogIndex args"
    and nm: "matchLog (raftLog rf) (PrevLogTerm args) (PrevLogIndex args) = Inr False"
  shows "\<exists>rf' reply'. HandleAppendEntries rf args reply = Inr (rf', reply')
           \<and> \<not> Success reply' \<and> reply_Term reply' = currentTerm rf'
           \<and> raftLog rf' = raftLog rf
           \<and> (Index (last (raftLog rf)) < PrevLogIndex args \<longrightarrow>
                ConflictIndex reply' = Index (last (raftLog rf)) + 1)
           \<and> (PrevLogIndex args \<le> Index (last (raftLog rf)) \<longrightarrow>
                walkBack (raftLog rf) (Index (hd (raftLog rf)))
                  (Term (entryAt (raftLog rf) (PrevLogIndex args))) (PrevLogIndex args)
                = Inr (ConflictIndex reply'))
           \<and> (Index (hd (raftLog rf)) < PrevLogIndex args \<longrightarrow>
                Index (hd (raftLog rf)) < ConflictIndex reply')"
proof (cases "Index (last (raftLog rf)) < PrevLogIndex args")
  case True
  have "Index (hd (raftLog rf)) \<le> Index (last (raftLog rf))"
    using wf_last [OF wf] wf_log_nonempty [OF wf] by simp
  then show ?thesis
    using True tm lo
    by (auto simp: HandleAppendEntries_def Let_def ChangeState_def persist_def
        wf_dummyIndex [OF wf] wf_lastIndex [OF wf] nm)
next
  case False
  then have hi: "PrevLogIndex args \<le> Index (last (raftLog rf))" by simp
  have g: "getEntry (raftLog rf) (PrevLogIndex args) = Inr (entryAt (raftLog rf) (PrevLogIndex args))"
    using lo hi by (rule wf_getEntry [OF wf])
  obtain j where w: "walkBack (raftLog rf) (Index (hd (raftLog rf)))
                  (Term (entryAt (raftLog rf) (PrevLogIndex args))) (PrevLogIndex args) = Inr j"
    and "Index (hd (raftLog rf)) < PrevLogIndex args \<longrightarrow> Index (hd (raftLog rf)) < j"
    using walkBack_wf [OF wf lo hi] by blast
  then show ?thesis
    using False tm lo
    by (auto simp: HandleAppendEntries_def Let_def ChangeState_def persist_def
        wf_dummyIndex [OF wf] wf_lastIndex [OF wf] nm g)
qed

text \<open>
  C5, as the claim states it, fails: not every rejection for a log mismatch carries
  a \<open>conflictIndex\<close> strictly greater than \<open>dummyIndex\<close>. A follower whose log is only
  the dummy entry \<open>0:0\<close> receives a request with \<open>PrevLogIndex = 0\<close> and
  \<open>PrevLogTerm = 1\<close>: \<open>matchLog\<close> is false, the backward walk starts at the dummy index
  and stops at once, and the reply carries \<open>conflictIndex = 0\<close>, the dummy index itself.
\<close>

theorem HandleAppendEntries_conflictIndex_at_dummy:
  "HandleAppendEntries freshFollower mismatchAtDummy zeroReply =
     Inr (freshFollower, \<lparr>reply_Term = 1, Success = False, ConflictIndex = 0\<rparr>)
   \<and> dummyIndex (raftLog freshFollower) = Inr 0
   \<and> matchLog (raftLog freshFollower) (PrevLogTerm mismatchAtDummy) (PrevLogIndex mismatchAtDummy)
       = Inr False"
  by (simp add: HandleAppendEntries_def Let_def ChangeState_def persist_def dummyIndex_def
      lastIndex_def matchLog_def getEntry_def convertIndex_def walkBack.simps
      freshFollower_def mismatchAtDummy_def zeroReply_def)

lemma walkBack_spec:
  assumes "wf_log l" and "p \<le> Index (last l)"
  shows "Index (hd l) \<le> i \<Longrightarrow> i \<le> p \<Longrightarrow>
         list_all (\<lambda>k. Term (entryAt l k) = t \<and> Index (hd l) + 1 < k) [i + 1..p] \<Longrightarrow>
         \<exists>j. walkBack l (Index (hd l)) t i = Inr j \<and> j \<le> i
              \<and> list_all (\<lambda>k. Term (entryAt l k) = t \<and> Index (hd l) + 1 < k) [j + 1..p]
              \<and> \<not> (Index (hd l) + 1 < j \<and> Term (entryAt l j) = t)"
proof (induction "nat (i - Index (hd l))" arbitrary: i)
  case 0
  then show ?case by (subst walkBack.simps) auto
next
  case (Suc n)
  have g: "getEntry l i = Inr (entryAt l i)"
    using Suc.prems assms(2) by (intro wf_getEntry [OF assms(1)]) auto
  show ?case
  proof (cases "Index (hd l) + 1 < i \<and> Term (entryAt l i) = t")
    case True
    have u: "[i - 1 + 1..p] = i # [i + 1..p]"
      using Suc.prems(2) by (simp add: upto_rec1)
    have "\<exists>j. walkBack l (Index (hd l)) t (i - 1) = Inr j \<and> j \<le> i - 1
              \<and> list_all (\<lambda>k. Term (entryAt l k) = t \<and> Index (hd l) + 1 < k) [j + 1..p]
              \<and> \<not> (Index (hd l) + 1 < j \<and> Term (entryAt l j) = t)"
    proof (rule Suc.hyps(1))
      show "n = nat (i - 1 - Index (hd l))" using Suc.hyps(2) by simp
      show "Index (hd l) \<le> i - 1" using True by simp
      show "i - 1 \<le> p" using Suc.prems(2) by simp
      show "list_all (\<lambda>k. Term (entryAt l k) = t \<and> Index (hd l) + 1 < k) [i - 1 + 1..p]"
        unfolding u using True Suc.prems(3) by simp
    qed
    then obtain j where "walkBack l (Index (hd l)) t (i - 1) = Inr j" and "j \<le> i - 1"
      and "list_all (\<lambda>k. Term (entryAt l k) = t \<and> Index (hd l) + 1 < k) [j + 1..p]"
      and "\<not> (Index (hd l) + 1 < j \<and> Term (entryAt l j) = t)"
      by blast
    then show ?thesis using True by (subst walkBack.simps) (auto simp: g)
  next
    case False
    then show ?thesis using Suc.prems(3) by (subst walkBack.simps) (auto simp: g)
  qed
qed

text \<open>
  C5, amended. For a request with \<open>args.Term \<ge> currentTerm\<close> and \<open>args.PrevLogIndex\<close>
  not below the dummy index that \<open>matchLog\<close> rejects, on a well-formed log: the
  handler returns a failure with the node's term and a \<open>conflictIndex\<close> that is
  \<open>lastIndex + 1\<close> if \<open>args.PrevLogIndex > lastIndex\<close>, and otherwise the index reached
  from \<open>args.PrevLogIndex\<close> by walking backward while the term there is the term of the
  entry at \<open>args.PrevLogIndex\<close> and the index is greater than \<open>dummyIndex + 1\<close>. For
  every such rejection with \<open>args.PrevLogIndex > dummyIndex\<close> the \<open>conflictIndex\<close> is
  strictly greater than \<open>dummyIndex\<close>.
\<close>

theorem HandleAppendEntries_conflictIndex_above_dummy:
  assumes "wf_log (raftLog rf)" and "currentTerm rf \<le> args_Term args"
    and "Index (hd (raftLog rf)) \<le> PrevLogIndex args"
    and "matchLog (raftLog rf) (PrevLogTerm args) (PrevLogIndex args) = Inr False"
  shows "\<exists>rf' reply'. HandleAppendEntries rf args reply = Inr (rf', reply')
           \<and> \<not> Success reply' \<and> reply_Term reply' = currentTerm rf'
           \<and> (Index (last (raftLog rf)) < PrevLogIndex args \<longrightarrow>
                ConflictIndex reply' = Index (last (raftLog rf)) + 1)
           \<and> (PrevLogIndex args \<le> Index (last (raftLog rf)) \<longrightarrow>
                walkedBackTo (raftLog rf) (PrevLogIndex args) (ConflictIndex reply'))
           \<and> (Index (hd (raftLog rf)) < PrevLogIndex args \<longrightarrow>
                Index (hd (raftLog rf)) < ConflictIndex reply')"
proof -
  obtain rf' reply' where h: "HandleAppendEntries rf args reply = Inr (rf', reply')"
    and s: "\<not> Success reply'" and t: "reply_Term reply' = currentTerm rf'"
    and b: "Index (last (raftLog rf)) < PrevLogIndex args \<longrightarrow>
                ConflictIndex reply' = Index (last (raftLog rf)) + 1"
    and w: "PrevLogIndex args \<le> Index (last (raftLog rf)) \<longrightarrow>
                walkBack (raftLog rf) (Index (hd (raftLog rf)))
                  (Term (entryAt (raftLog rf) (PrevLogIndex args))) (PrevLogIndex args)
                = Inr (ConflictIndex reply')"
    and a: "Index (hd (raftLog rf)) < PrevLogIndex args \<longrightarrow>
                Index (hd (raftLog rf)) < ConflictIndex reply'"
    using HandleAppendEntries_reject [OF assms, of reply] by blast
  have "walkedBackTo (raftLog rf) (PrevLogIndex args) (ConflictIndex reply')"
    if hi: "PrevLogIndex args \<le> Index (last (raftLog rf))"
  proof -
    have "list_all (\<lambda>k. Term (entryAt (raftLog rf) k) = Term (entryAt (raftLog rf) (PrevLogIndex args))
                         \<and> Index (hd (raftLog rf)) + 1 < k) [PrevLogIndex args + 1..PrevLogIndex args]"
      by simp
    then obtain j where "walkBack (raftLog rf) (Index (hd (raftLog rf)))
                  (Term (entryAt (raftLog rf) (PrevLogIndex args))) (PrevLogIndex args) = Inr j"
      and "j \<le> PrevLogIndex args"
      and "list_all (\<lambda>k. Term (entryAt (raftLog rf) k) = Term (entryAt (raftLog rf) (PrevLogIndex args))
                         \<and> Index (hd (raftLog rf)) + 1 < k) [j + 1..PrevLogIndex args]"
      and "\<not> (Index (hd (raftLog rf)) + 1 < j
              \<and> Term (entryAt (raftLog rf) j) = Term (entryAt (raftLog rf) (PrevLogIndex args)))"
      using walkBack_spec [OF assms(1) hi assms(3), of "Term (entryAt (raftLog rf) (PrevLogIndex args))"]
      by auto
    then show ?thesis using w hi by (simp add: walkedBackTo_def)
  qed
  then show ?thesis using h s t b a by blast
qed

theorem HandleAppendEntries_conflictIndex_above_dummy_witness:
  "(case HandleAppendEntries follower3 mismatch3 zeroReply of
      Inl e \<Rightarrow> False
    | Inr (rf', reply') \<Rightarrow>
        \<not> Success reply' \<and> reply_Term reply' = 3 \<and> ConflictIndex reply' = 2
        \<and> walkedBackTo (raftLog follower3) 3 (ConflictIndex reply')
        \<and> Index (hd (raftLog follower3)) < ConflictIndex reply')"
proof -
  have w: "wf_log (raftLog follower3)" by (simp add: wf_log_def follower3_def)
  have t: "currentTerm follower3 \<le> args_Term mismatch3"
    by (simp add: follower3_def mismatch3_def)
  have d: "Index (hd (raftLog follower3)) \<le> PrevLogIndex mismatch3"
    by (simp add: follower3_def mismatch3_def)
  have m: "matchLog (raftLog follower3) (PrevLogTerm mismatch3) (PrevLogIndex mismatch3)
           = Inr False"
    by (simp add: matchLog_def lastIndex_def getEntry_def convertIndex_def dummyIndex_def
        follower3_def mismatch3_def)
  have p: "PrevLogIndex mismatch3 \<le> Index (last (raftLog follower3))
           \<and> Index (hd (raftLog follower3)) < PrevLogIndex mismatch3"
    by (simp add: follower3_def mismatch3_def)
  obtain rf' reply' where h: "HandleAppendEntries follower3 mismatch3 zeroReply = Inr (rf', reply')"
    and s: "\<not> Success reply'" and r: "reply_Term reply' = currentTerm rf'"
    and k: "walkedBackTo (raftLog follower3) (PrevLogIndex mismatch3) (ConflictIndex reply')"
    and a: "Index (hd (raftLog follower3)) < ConflictIndex reply'"
    using HandleAppendEntries_conflictIndex_above_dummy [OF w t d m, of zeroReply] p by blast
  have e: "map_sum id (\<lambda>(rf', reply'). (currentTerm rf', ConflictIndex reply'))
             (HandleAppendEntries follower3 mismatch3 zeroReply) = Inr (3, 2)"
    by (simp add: HandleAppendEntries_def Let_def ChangeState_def persist_def dummyIndex_def
        lastIndex_def matchLog_def getEntry_def convertIndex_def walkBack.simps
        follower3_def mismatch3_def zeroReply_def)
  have "currentTerm rf' = 3" and "ConflictIndex reply' = 2" using e h by simp_all
  then show ?thesis using h s r k a by (simp add: mismatch3_def)
qed

lemma appendOneRound_beyond_last:
  assumes "wf_log (raftLog rf)" and "state rf = StateLeader" and "peer < length (nextIndex rf)"
    and "Index (last (raftLog rf)) < nextIndex rf ! peer - 1"
  shows "appendOneRound rf peer = Inl IndexOutOfRange"
proof -
  have "Index (hd (raftLog rf)) \<le> Index (last (raftLog rf))"
    using wf_last [OF assms(1)] wf_log_nonempty [OF assms(1)] by simp
  then show ?thesis
    using assms wf_last [OF assms(1)]
    by (simp add: appendOneRound_def wf_dummyIndex wf_lastIndex getEntry_def wf_convertIndex
        Let_def)
qed

text \<open>
  C6. The claim: when \<open>nextIndex[peer] - 1\<close> is beyond \<open>lastIndex\<close>, \<open>appendOneRound\<close>
  clamps \<open>prevLogIndex\<close> to \<open>lastIndex\<close> and sends the last entry's term with no
  entries. A leader with \<open>lastIndex = 3\<close> and \<open>nextIndex[2] = 6\<close> sets \<open>prevLogIndex\<close> to
  \<open>lastIndex + 1 = 4\<close> instead, and \<open>getEntry(4)\<close> reads past the end of the log: the
  call panics and sends nothing.
\<close>

theorem appendOneRound_clamp_past_end:
  "appendOneRound aheadLeader 2 = Inl IndexOutOfRange
   \<and> lastIndex (raftLog aheadLeader) = Inr 3 \<and> nextIndex aheadLeader ! 2 - 1 = 5"
  by (simp add: appendOneRound_def dummyIndex_def lastIndex_def getEntry_def convertIndex_def
      Let_def aheadLeader_def leader3_def)

text \<open>
  C7, as the claim states it, fails: for a request behind the dummy entry the handler
  does not return a reply.
\<close>

theorem HandleAppendEntries_behind_dummy_no_reply:
  "HandleAppendEntries freshFollower behindDummy zeroReply = Inl (Panic ''weird2'')"
  by (simp add: HandleAppendEntries_def Let_def ChangeState_def dummyIndex_def lastIndex_def
      freshFollower_def behindDummy_def)

text \<open>
  C7, amended. For every request with \<open>args.Term \<ge> currentTerm\<close> and
  \<open>args.PrevLogIndex\<close> below the dummy index of a non-empty log, \<open>HandleAppendEntries\<close>
  panics with \<open>weird2\<close> and returns no reply.
\<close>

theorem HandleAppendEntries_behind_dummy_panics:
  assumes "raftLog rf \<noteq> []" and "currentTerm rf \<le> args_Term args"
    and "PrevLogIndex args < Index (hd (raftLog rf))"
  shows "HandleAppendEntries rf args reply = Inl (Panic ''weird2'')"
  using assms
  by (cases "raftLog rf")
     (auto simp: HandleAppendEntries_def Let_def ChangeState_def dummyIndex_def lastIndex_def)

theorem HandleAppendEntries_behind_dummy_panics_witness:
  "HandleAppendEntries compacted request3 zeroReply = Inl (Panic ''weird2'')"
proof -
  have "raftLog compacted \<noteq> []" by (simp add: compacted_def)
  moreover have "currentTerm compacted \<le> args_Term request3"
    by (simp add: compacted_def request3_def)
  moreover have "PrevLogIndex request3 < Index (hd (raftLog compacted))"
    by (simp add: compacted_def request3_def)
  ultimately show ?thesis by (rule HandleAppendEntries_behind_dummy_panics)
qed

section \<open>Deduplication in the key-value server\<close>

lemma step_returns:
  assumes "maxraftstate kv \<noteq> 0" and "MsgCommand m = Some op"
  shows "\<exists>evs. listenApplyCh_command rf sz kv m =
           Inr (if kv_lastApplied kv < CommandIndex m
                then applyOp (kv\<lparr>kv_lastApplied := CommandIndex m\<rparr>) op else kv, evs)"
  using assms
  by (auto simp: listenApplyCh_command_def Let_def needSnapShot_def applyOp_def)

lemma applyOp_maxraftstate: "maxraftstate (applyOp kv op) = maxraftstate kv"
  by (simp add: applyOp_def Let_def)

lemma step_maxraftstate:
  assumes "listenApplyCh_command rf sz kv m = Inr (kv', evs)"
  shows "maxraftstate kv' = maxraftstate kv"
  using assms
  by (auto simp: listenApplyCh_command_def Let_def andThen_def applyOp_maxraftstate
      split: option.splits if_splits sum.splits)

lemma applyOp_latest_mono:
  assumes "latestTime kv c = Some v"
  shows "\<exists>v'. latestTime (applyOp kv op) c = Some v' \<and> v \<le> v'"
  using assms by (auto simp: applyOp_def Let_def dupCommand_def split: option.splits)

lemma step_latest_mono:
  assumes "listenApplyCh_command rf sz kv m = Inr (kv', evs)" and "latestTime kv c = Some v"
  shows "\<exists>v'. latestTime kv' c = Some v' \<and> v \<le> v'"
proof -
  have "kv' = kv \<or> (\<exists>op i. kv' = applyOp (kv\<lparr>kv_lastApplied := i\<rparr>) op)"
    using assms(1)
    by (auto simp: listenApplyCh_command_def Let_def andThen_def
        split: option.splits if_splits sum.splits)
  then show ?thesis
  proof
    assume "kv' = kv" then show ?thesis using assms(2) by simp
  next
    assume "\<exists>op i. kv' = applyOp (kv\<lparr>kv_lastApplied := i\<rparr>) op"
    then obtain op i where k: "kv' = applyOp (kv\<lparr>kv_lastApplied := i\<rparr>) op" by blast
    have "latestTime (kv\<lparr>kv_lastApplied := i\<rparr>) c = Some v" using assms(2) by simp
    then show ?thesis unfolding k by (rule applyOp_latest_mono)
  qed
qed

lemma run_latest_mono:
  "listenApplyCh kv ms = Inr kv2 \<Longrightarrow> latestTime kv c = Some v \<Longrightarrow>
   \<exists>v'. latestTime kv2 c = Some v' \<and> v \<le> v'"
proof (induction ms arbitrary: kv v)
  case Nil
  then show ?case by simp
next
  case (Cons x ms)
  obtain rf sz m where x: "x = (rf, sz, m)" by (cases x) auto
  obtain kv1 evs where s: "listenApplyCh_command rf sz kv m = Inr (kv1, evs)"
    and r: "listenApplyCh kv1 ms = Inr kv2"
    using Cons.prems(1) unfolding x by (auto split: sum.splits)
  obtain v1 where "latestTime kv1 c = Some v1" and "v \<le> v1"
    using step_latest_mono [OF s Cons.prems(2)] by blast
  then show ?case using Cons.IH [OF r, of v1] by force
qed

lemma run_maxraftstate:
  "listenApplyCh kv ms = Inr kv2 \<Longrightarrow> maxraftstate kv2 = maxraftstate kv"
proof (induction ms arbitrary: kv)
  case Nil
  then show ?case by simp
next
  case (Cons x ms)
  obtain rf sz m where x: "x = (rf, sz, m)" by (cases x) auto
  obtain kv1 evs where s: "listenApplyCh_command rf sz kv m = Inr (kv1, evs)"
    and r: "listenApplyCh kv1 ms = Inr kv2"
    using Cons.prems(1) unfolding x by (auto split: sum.splits)
  show ?case using Cons.IH [OF r] step_maxraftstate [OF s] by simp
qed

lemma applyOp_dup:
  assumes "OpTask op = Gett \<or> (\<exists>v. latestTime kv (ClientId op) = Some v \<and> CommandId op \<le> v)"
  shows "applyOp kv op = kv"
  using assms by (auto simp: applyOp_def dupCommand_def)

lemma applyOp_recorded:
  assumes "OpTask op \<noteq> Gett"
  shows "\<exists>v. latestTime (applyOp kv op) (ClientId op) = Some v \<and> CommandId op \<le> v"
  using assms by (auto simp: applyOp_def Let_def dupCommand_def split: option.splits)

lemma step_redelivered:
  assumes mx: "maxraftstate kv2 \<noteq> 0" and m2: "MsgCommand m2 = Some op2"
    and d: "OpTask op2 = Gett \<or> (\<exists>v. latestTime kv2 (ClientId op2) = Some v \<and> CommandId op2 \<le> v)"
  shows "\<exists>kv3 evs3. listenApplyCh_command rf2 sz2 kv2 m2 = Inr (kv3, evs3)
           \<and> storage kv3 = storage kv2 \<and> latestTime kv3 = latestTime kv2"
proof -
  obtain evs where e: "listenApplyCh_command rf2 sz2 kv2 m2 =
           Inr (if kv_lastApplied kv2 < CommandIndex m2
                then applyOp (kv2\<lparr>kv_lastApplied := CommandIndex m2\<rparr>) op2 else kv2, evs)"
    using step_returns [OF mx m2] by blast
  have "applyOp (kv2\<lparr>kv_lastApplied := CommandIndex m2\<rparr>) op2
        = kv2\<lparr>kv_lastApplied := CommandIndex m2\<rparr>"
    using d by (intro applyOp_dup) simp
  then show ?thesis using e by auto
qed

text \<open>
  C8. For a command message carrying an operation, on a server whose \<open>maxraftstate\<close>
  is not 0 (where \<open>needSnapShot\<close> would divide by zero): the step returns; \<open>storage\<close>
  or \<open>latestTime\<close> change only if \<open>commandIndex > lastApplied\<close>, the operation is not a
  Get and its \<open>commandId\<close> is above \<open>latestTime[clientId]\<close> when that exists; under
  these conditions the Put or Append is applied and \<open>latestTime[clientId]\<close> becomes the
  \<open>commandId\<close>; a Get changes neither. Once a message with the operation has been
  processed, after any further messages a message with the same task, \<open>clientId\<close>
  and \<open>commandId\<close> changes neither \<open>storage\<close> nor \<open>latestTime\<close>: the operation takes
  effect at most once.
\<close>

theorem listenApplyCh_command_at_most_once:
  assumes "maxraftstate kv \<noteq> 0" and "MsgCommand m = Some op"
  shows "\<exists>kv' evs. listenApplyCh_command rf sz kv m = Inr (kv', evs)
     \<and> (storage kv' \<noteq> storage kv \<or> latestTime kv' \<noteq> latestTime kv \<longrightarrow>
          kv_lastApplied kv < CommandIndex m \<and> OpTask op \<noteq> Gett
          \<and> (\<forall>v. latestTime kv (ClientId op) = Some v \<longrightarrow> v < CommandId op))
     \<and> (kv_lastApplied kv < CommandIndex m \<and> OpTask op \<noteq> Gett
          \<and> \<not> dupCommand kv (CommandId op) (ClientId op) \<longrightarrow>
          latestTime kv' = (latestTime kv)(ClientId op \<mapsto> CommandId op)
          \<and> storage kv' = (if OpTask op = Appendd then kvAppend (storage kv) (Key op) (Value op)
                           else if OpTask op = Putt then kvPut (storage kv) (Key op) (Value op)
                           else storage kv))
     \<and> (OpTask op = Gett \<longrightarrow> storage kv' = storage kv \<and> latestTime kv' = latestTime kv)
     \<and> (kv_lastApplied kv < CommandIndex m \<longrightarrow>
          (\<forall>ms kv2 rf2 sz2 m2 op2.
             listenApplyCh kv' ms = Inr kv2 \<and> MsgCommand m2 = Some op2
             \<and> OpTask op2 = OpTask op \<and> ClientId op2 = ClientId op
             \<and> CommandId op2 = CommandId op \<longrightarrow>
             (\<exists>kv3 evs3. listenApplyCh_command rf2 sz2 kv2 m2 = Inr (kv3, evs3)
                \<and> storage kv3 = storage kv2 \<and> latestTime kv3 = latestTime kv2)))"
proof -
  let ?kv' = "if kv_lastApplied kv < CommandIndex m
              then applyOp (kv\<lparr>kv_lastApplied := CommandIndex m\<rparr>) op else kv"
  obtain evs where e: "listenApplyCh_command rf sz kv m = Inr (?kv', evs)"
    using step_returns [OF assms] by blast
  have a: "storage ?kv' \<noteq> storage kv \<or> latestTime ?kv' \<noteq> latestTime kv \<longrightarrow>
          kv_lastApplied kv < CommandIndex m \<and> OpTask op \<noteq> Gett
          \<and> (\<forall>v. latestTime kv (ClientId op) = Some v \<longrightarrow> v < CommandId op)"
    by (auto simp: applyOp_def Let_def dupCommand_def split: if_splits)
  have b: "kv_lastApplied kv < CommandIndex m \<and> OpTask op \<noteq> Gett
          \<and> \<not> dupCommand kv (CommandId op) (ClientId op) \<longrightarrow>
          latestTime ?kv' = (latestTime kv)(ClientId op \<mapsto> CommandId op)
          \<and> storage ?kv' = (if OpTask op = Appendd then kvAppend (storage kv) (Key op) (Value op)
                           else if OpTask op = Putt then kvPut (storage kv) (Key op) (Value op)
                           else storage kv)"
    by (auto simp: applyOp_def Let_def dupCommand_def)
  have c: "OpTask op = Gett \<longrightarrow> storage ?kv' = storage kv \<and> latestTime ?kv' = latestTime kv"
    by (auto simp: applyOp_def)
  have d: "\<exists>kv3 evs3. listenApplyCh_command rf2 sz2 kv2 m2 = Inr (kv3, evs3)
                \<and> storage kv3 = storage kv2 \<and> latestTime kv3 = latestTime kv2"
    if lt: "kv_lastApplied kv < CommandIndex m"
      and h: "listenApplyCh ?kv' ms = Inr kv2 \<and> MsgCommand m2 = Some op2
             \<and> OpTask op2 = OpTask op \<and> ClientId op2 = ClientId op
             \<and> CommandId op2 = CommandId op"
    for ms kv2 rf2 sz2 m2 op2
  proof -
    have mx: "maxraftstate kv2 \<noteq> 0"
      using h run_maxraftstate [of ?kv' ms kv2] assms(1) by (simp add: applyOp_maxraftstate)
    have "OpTask op2 = Gett \<or> (\<exists>v. latestTime kv2 (ClientId op2) = Some v \<and> CommandId op2 \<le> v)"
    proof (cases "OpTask op = Gett")
      case True
      then show ?thesis using h by simp
    next
      case False
      then obtain v where "latestTime ?kv' (ClientId op) = Some v" and "CommandId op \<le> v"
        using lt applyOp_recorded [of op "kv\<lparr>kv_lastApplied := CommandIndex m\<rparr>"] by auto
      then obtain v' where "latestTime kv2 (ClientId op) = Some v'" and "CommandId op \<le> v'"
        using h run_latest_mono [of ?kv' ms kv2 "ClientId op" v] by force
      then show ?thesis using h by simp
    qed
    then show ?thesis using step_redelivered [of kv2 m2 op2 rf2 sz2] mx h by blast
  qed
  show ?thesis
    apply (rule exI [of _ ?kv'])
    apply (rule exI [of _ evs])
    using e a b c d by blast
qed

theorem listenApplyCh_command_at_most_once_witness:
  "(case listenApplyCh_command opNode 0 emptyKV (put7_at 1) of
      Inl e \<Rightarrow> False
    | Inr (kv', evs) \<Rightarrow>
        storage kv' ''k'' = Some ''v'' \<and> latestTime kv' 42 = Some 7
        \<and> (case listenApplyCh_command opNode 0 kv' (put7_at 2) of
              Inl e \<Rightarrow> False
            | Inr (kv3, evs3) \<Rightarrow> storage kv3 = storage kv' \<and> latestTime kv3 = latestTime kv'))"
proof -
  have mx: "maxraftstate emptyKV \<noteq> 0" by (simp add: emptyKV_def)
  have m1: "MsgCommand (put7_at 1) = Some put7" by (simp add: put7_at_def)
  have lt: "kv_lastApplied emptyKV < CommandIndex (put7_at 1)"
    by (simp add: emptyKV_def put7_at_def)
  have nd: "OpTask put7 \<noteq> Gett \<and> \<not> dupCommand emptyKV (CommandId put7) (ClientId put7)"
    by (simp add: put7_def Gett_def dupCommand_def emptyKV_def)
  obtain kv' evs where s: "listenApplyCh_command opNode 0 emptyKV (put7_at 1) = Inr (kv', evs)"
    and l: "latestTime kv' = (latestTime emptyKV)(ClientId put7 \<mapsto> CommandId put7)"
    and t: "storage kv' = (if OpTask put7 = Appendd
                           then kvAppend (storage emptyKV) (Key put7) (Value put7)
                           else if OpTask put7 = Putt
                           then kvPut (storage emptyKV) (Key put7) (Value put7)
                           else storage emptyKV)"
    and r: "\<forall>ms kv2 rf2 sz2 m2 op2.
             listenApplyCh kv' ms = Inr kv2 \<and> MsgCommand m2 = Some op2
             \<and> OpTask op2 = OpTask put7 \<and> ClientId op2 = ClientId put7
             \<and> CommandId op2 = CommandId put7 \<longrightarrow>
             (\<exists>kv3 evs3. listenApplyCh_command rf2 sz2 kv2 m2 = Inr (kv3, evs3)
                \<and> storage kv3 = storage kv2 \<and> latestTime kv3 = latestTime kv2)"
    using listenApplyCh_command_at_most_once [OF mx m1, of opNode 0] lt nd by blast
  have "listenApplyCh kv' [] = Inr kv' \<and> MsgCommand (put7_at 2) = Some put7
        \<and> OpTask put7 = OpTask put7 \<and> ClientId put7 = ClientId put7
        \<and> CommandId put7 = CommandId put7"
    by (simp add: put7_at_def)
  then obtain kv3 evs3 where "listenApplyCh_command opNode 0 kv' (put7_at 2) = Inr (kv3, evs3)"
    and "storage kv3 = storage kv'" and "latestTime kv3 = latestTime kv'"
    using r by blast
  then show ?thesis
    using s l t by (simp add: put7_def Putt_def Appendd_def kvPut_def)
qed

section \<open>The submit interface\<close>

text \<open>
  C10. \<open>Start\<close> on a node that is not Leader returns \<open>(-1, -1, false)\<close> and the node as
  it was. On a Leader (with a log that is not empty) it appends one entry with index
  \<open>lastIndex + 1\<close>, the current term and the command, persists term, vote and the new
  log, signals the replicator of every other peer, and returns that index, that term
  and true; \<open>commitIndex\<close>, \<open>matchIndex\<close> and \<open>nextIndex\<close> are as before, nothing has
  been replicated yet. \<open>Command\<close> on a node that is not Leader replies
  \<open>ErrWrongLeader\<close> and leaves the node as it was.
\<close>

theorem Start_submit:
  "(state rf \<noteq> StateLeader \<longrightarrow> Start rf command = Inr (rf, -1, -1, False))
   \<and> (state rf = StateLeader \<and> raftLog rf \<noteq> [] \<longrightarrow>
        Start rf command =
          Inr (rf\<lparr>raftLog := raftLog rf @ [\<lparr>Index = Index (last (raftLog rf)) + 1,
                                             Term = currentTerm rf, Command = Some command\<rparr>],
                  persisted := (currentTerm rf, votedFor rf,
                                raftLog rf @ [\<lparr>Index = Index (last (raftLog rf)) + 1,
                                               Term = currentTerm rf, Command = Some command\<rparr>]),
                  trace := trace rf @ map Signal_tryAppendCond
                                        (filter (\<lambda>peer. peer \<noteq> me rf) [0..<peers rf])\<rparr>,
               Index (last (raftLog rf)) + 1, currentTerm rf, True))
   \<and> (state rfk \<noteq> StateLeader \<longrightarrow>
        (\<exists>kv'. Command_kv rfk kv args reply seq w
                 = Inr (rfk, kv', reply\<lparr>Err := ErrWrongLeader\<rparr>)))"
proof (intro conjI impI)
  assume "state rf \<noteq> StateLeader"
  then show "Start rf command = Inr (rf, -1, -1, False)" by (simp add: Start_def)
next
  assume "state rf = StateLeader \<and> raftLog rf \<noteq> []"
  then show "Start rf command =
          Inr (rf\<lparr>raftLog := raftLog rf @ [\<lparr>Index = Index (last (raftLog rf)) + 1,
                                             Term = currentTerm rf, Command = Some command\<rparr>],
                  persisted := (currentTerm rf, votedFor rf,
                                raftLog rf @ [\<lparr>Index = Index (last (raftLog rf)) + 1,
                                               Term = currentTerm rf, Command = Some command\<rparr>]),
                  trace := trace rf @ map Signal_tryAppendCond
                                        (filter (\<lambda>peer. peer \<noteq> me rf) [0..<peers rf])\<rparr>,
               Index (last (raftLog rf)) + 1, currentTerm rf, True)"
    by (simp add: Start_def Let_def lastIndex_def append_raftLog_def persist_def
        BroadcastAppend_def)
next
  assume "state rfk \<noteq> StateLeader"
  then have "Start rfk \<lparr>OpTask = args_Op args, Key = args_Key args, Value = args_Value args,
                ClientId = args_ClientId args, CommandId = args_CommandId args, Seq = seq\<rparr>
             = Inr (rfk, -1, -1, False)"
    by (simp add: Start_def)
  then show "\<exists>kv'. Command_kv rfk kv args reply seq w
                 = Inr (rfk, kv', reply\<lparr>Err := ErrWrongLeader\<rparr>)"
    by (simp add: Command_kv_def Let_def)
qed

theorem Start_submit_witness:
  "Start follower3 ''d'' = Inr (follower3, -1, -1, False)
   \<and> Start leader3 ''d'' =
       Inr (leader3\<lparr>raftLog := raftLog leader3 @ [\<lparr>Index = 4, Term = 2, Command = Some ''d''\<rparr>],
                    persisted := (2, 0, raftLog leader3
                                         @ [\<lparr>Index = 4, Term = 2, Command = Some ''d''\<rparr>]),
                    trace := [Signal_tryAppendCond 1, Signal_tryAppendCond 2]\<rparr>,
            4, 2, True)
   \<and> (case Command_kv opNode emptyKV getArgs zeroCommandReply 1001 TimerFired of
         Inl e \<Rightarrow> False
       | Inr (rf', kv', reply') \<Rightarrow> rf' = opNode \<and> Err reply' = ''ErrWrongLeader'')"
proof -
  have f: "state follower3 \<noteq> StateLeader" by (simp add: follower3_def)
  have l: "state leader3 = StateLeader \<and> raftLog leader3 \<noteq> []" by (simp add: leader3_def)
  have o: "state opNode \<noteq> StateLeader" by (simp add: opNode_def)
  have 1: "Start follower3 ''d'' = Inr (follower3, -1, -1, False)"
    using Start_submit [of follower3 "''d''"] f by blast
  have 2: "Start leader3 ''d'' =
       Inr (leader3\<lparr>raftLog := raftLog leader3 @ [\<lparr>Index = 4, Term = 2, Command = Some ''d''\<rparr>],
                    persisted := (2, 0, raftLog leader3
                                         @ [\<lparr>Index = 4, Term = 2, Command = Some ''d''\<rparr>]),
                    trace := [Signal_tryAppendCond 1, Signal_tryAppendCond 2]\<rparr>,
            4, 2, True)"
    using Start_submit [of leader3 "''d''"] l
    by (simp add: leader3_def eval_nat_numeral)
  obtain kv' where "Command_kv opNode emptyKV getArgs zeroCommandReply 1001 TimerFired
                 = Inr (opNode, kv', zeroCommandReply\<lparr>Err := ErrWrongLeader\<rparr>)"
    using Start_submit [of follower3 "''d''" opNode emptyKV getArgs zeroCommandReply 1001 TimerFired] o
    by blast
  then show ?thesis using 1 2 by (simp add: ErrWrongLeader_def)
qed

end
